theory Spec2Isabelle
  imports Complex_Main "HOL-Library.Signed_Division"
begin

section \<open>The array-based FIFO queue (src/adts/arrayqueue.c)\<close>

text \<open>
  \<^verbatim>\<open>struct q_data { long count; long size; int in; int out; void **buffer; ... }\<close>

  The fields \<open>count\<close> and \<open>size\<close> are C \<open>long\<close>s and are modelled as mathematical
  integers. The fields \<open>in\<close> and \<open>out\<close> are C \<open>int\<close>s: every assignment of a \<open>long\<close>
  expression to them goes through \<open>int_of_long\<close>, which keeps the low 32 bits as a two's
  complement value. C's \<open>%\<close> truncates towards zero and is written \<open>smod\<close>.

  A cell of the buffer, and every \<open>void *\<close> the queue hands around, is an \<open>'a option\<close>:
  \<open>Some x\<close> is a pointer to the element \<open>x\<close>, \<open>None\<close> is \<open>NULL\<close> or the indeterminate
  content of memory that \<open>malloc\<close> has just returned. The field names carry the prefix
  \<open>qd_\<close> (as in \<open>qd->count\<close>), since \<open>in\<close> and \<open>size\<close> are taken in Isabelle.
\<close>

definition INT_MAX :: int where
  "INT_MAX = 2147483647"

definition int_of_long :: "int \<Rightarrow> int" where
  "int_of_long x = signed_take_bit 31 x"

record 'a QData =
  qd_count :: int
  qd_size :: int
  qd_in :: int
  qd_out :: int
  qd_buffer :: "'a option list"

text \<open>
  \<open>newQueue\<close>: the three allocations succeed together (\<open>malloc_ok\<close>) or the result is
  \<open>NULL\<close>. \<open>DEFAULT_QUEUE_CAPACITY\<close> comes from a header that is not part of the sources
  and is a parameter.
\<close>

definition newQueue :: "bool \<Rightarrow> int \<Rightarrow> int \<Rightarrow> 'a QData option" where
  "newQueue malloc_ok DEFAULT_QUEUE_CAPACITY capacity =
     (if malloc_ok then
        (let cap = (if capacity \<le> 0 then DEFAULT_QUEUE_CAPACITY else capacity) in
         Some \<lparr>qd_count = 0, qd_size = cap, qd_in = 0, qd_out = 0,
               qd_buffer = replicate (nat cap) None\<rparr>)
      else None)"

definition ArrayQueue :: "bool \<Rightarrow> int \<Rightarrow> int \<Rightarrow> 'a QData option" where
  "ArrayQueue malloc_ok DEFAULT_QUEUE_CAPACITY capacity =
     newQueue malloc_ok DEFAULT_QUEUE_CAPACITY capacity"

text \<open>
  The copy loop of \<open>q_enqueue\<close>:
  \<^verbatim>\<open>for (i = qd->out, j = 0; n > 0; i = (i + 1) % qd->size, j++) { tmp[j] = qd->buffer[i]; n--; }\<close>
  The counter \<open>n\<close> starts at \<open>count\<close> and the loop runs while it is positive.
\<close>

fun copy_loop :: "'a option list \<Rightarrow> int \<Rightarrow> int \<Rightarrow> int \<Rightarrow> nat \<Rightarrow> 'a option list \<Rightarrow> 'a option list" where
  "copy_loop buf sz i j 0 tmp = tmp"
| "copy_loop buf sz i j (Suc n) tmp =
     copy_loop buf sz ((i + 1) smod sz) (j + 1) n (tmp[nat j := buf ! nat i])"

text \<open>
  \<open>q_enqueue\<close>. \<open>malloc_ok\<close> says whether the \<open>malloc\<close> of the doubled buffer succeeds; it
  is consulted only when the queue is full.
\<close>

definition q_grow :: "'a QData \<Rightarrow> 'a QData" where
  "q_grow qd =
     (let tmp = replicate (nat (2 * qd_size qd)) None;
          tmp = copy_loop (qd_buffer qd) (qd_size qd) (qd_out qd) 0 (nat (qd_count qd)) tmp
      in qd\<lparr>qd_buffer := tmp, qd_size := 2 * qd_size qd, qd_out := 0,
             qd_in := int_of_long (qd_count qd)\<rparr>)"

definition q_put :: "'a QData \<Rightarrow> 'a option \<Rightarrow> 'a QData" where
  "q_put qd element =
     (let i = qd_in qd in
      qd\<lparr>qd_buffer := (qd_buffer qd)[nat i := element],
         qd_in := int_of_long ((i + 1) smod qd_size qd),
         qd_count := qd_count qd + 1\<rparr>)"

definition q_enqueue :: "bool \<Rightarrow> 'a QData \<Rightarrow> 'a option \<Rightarrow> bool \<times> 'a QData" where
  "q_enqueue malloc_ok qd element =
     (if qd_count qd < qd_size qd then (True, q_put qd element)
      else if malloc_ok then (True, q_put (q_grow qd) element)
      else (False, qd))"

text \<open>
  \<open>q_front\<close> and \<open>q_dequeue\<close> write through the out-parameter \<open>element\<close> only when the
  queue is not empty: the model takes the previous content of \<open>*element\<close> and returns
  the content after the call.
\<close>

definition q_front :: "'a QData \<Rightarrow> 'a option \<Rightarrow> bool \<times> 'a option" where
  "q_front qd element =
     (if qd_count qd > 0 then (True, qd_buffer qd ! nat (qd_out qd)) else (False, element))"

definition q_dequeue :: "'a QData \<Rightarrow> 'a option \<Rightarrow> bool \<times> 'a option \<times> 'a QData" where
  "q_dequeue qd element =
     (if qd_count qd > 0 then
        (let i = qd_out qd in
         (True, qd_buffer qd ! nat i,
          qd\<lparr>qd_out := int_of_long ((i + 1) smod qd_size qd), qd_count := qd_count qd - 1\<rparr>))
      else (False, element, qd))"

definition q_size :: "'a QData \<Rightarrow> int" where
  "q_size qd = qd_count qd"

definition q_isEmpty :: "'a QData \<Rightarrow> bool" where
  "q_isEmpty qd = (qd_count qd = 0)"

text \<open>
  The elements a queue holds, front first: \<open>count\<close> cells starting at \<open>out\<close>, wrapping
  around at \<open>size\<close>. The representation invariant: the indices are in range, \<open>in\<close> is
  \<open>count\<close> cells after \<open>out\<close>, and \<open>size\<close> fits a C \<open>int\<close>.
\<close>

definition q_elems :: "'a QData \<Rightarrow> 'a option list" where
  "q_elems qd =
     map (\<lambda>k. qd_buffer qd ! nat ((qd_out qd + int k) mod qd_size qd)) [0..<nat (qd_count qd)]"

definition q_inv :: "'a QData \<Rightarrow> bool" where
  "q_inv qd =
     (0 < qd_size qd \<and> qd_size qd \<le> INT_MAX \<and> length (qd_buffer qd) = nat (qd_size qd) \<and>
      0 \<le> qd_count qd \<and> qd_count qd \<le> qd_size qd \<and>
      0 \<le> qd_out qd \<and> qd_out qd < qd_size qd \<and>
      qd_in qd = (qd_out qd + qd_count qd) mod qd_size qd)"

text \<open>
  Sequences of queue operations. \<open>run_ops\<close> applies them to the array queue (the
  out-parameter of each \<open>q_dequeue\<close> starts as \<open>NULL\<close>, allocation succeeds);
  \<open>fifo_ops\<close> is the contract in the words of the specification, on a plain list:
  enqueue appends to the back and succeeds, dequeue removes and returns the front, and
  fails on the empty queue.
\<close>

datatype 'a qop = Enqueue "'a option" | Dequeue

datatype 'a qres = Enqueued bool | Dequeued bool "'a option"

fun run_ops :: "'a QData \<Rightarrow> 'a qop list \<Rightarrow> 'a qres list \<times> 'a QData" where
  "run_ops qd [] = ([], qd)"
| "run_ops qd (Enqueue e # ops) =
     (case q_enqueue True qd e of (st, qd') \<Rightarrow>
        case run_ops qd' ops of (rs, qd'') \<Rightarrow> (Enqueued st # rs, qd''))"
| "run_ops qd (Dequeue # ops) =
     (case q_dequeue qd None of (st, x, qd') \<Rightarrow>
        case run_ops qd' ops of (rs, qd'') \<Rightarrow> (Dequeued st x # rs, qd''))"

fun fifo_ops :: "'a option list \<Rightarrow> 'a qop list \<Rightarrow> 'a qres list \<times> 'a option list" where
  "fifo_ops xs [] = ([], xs)"
| "fifo_ops xs (Enqueue e # ops) =
     (case fifo_ops (xs @ [e]) ops of (rs, ys) \<Rightarrow> (Enqueued True # rs, ys))"
| "fifo_ops [] (Dequeue # ops) =
     (case fifo_ops [] ops of (rs, ys) \<Rightarrow> (Dequeued False None # rs, ys))"
| "fifo_ops (x # xs) (Dequeue # ops) =
     (case fifo_ops xs ops of (rs, ys) \<Rightarrow> (Dequeued True x # rs, ys))"

section \<open>The scheduler (src/project1/uspsv3.c and uspsv4.c)\<close>

subsection \<open>Resolving the quantum (main, lines 49 to 74, the same in both versions)\<close>

text \<open>
  \<open>p1atoi\<close> and \<open>getopt\<close> are not part of the sources: the model takes what they
  return. \<open>getopt_loop\<close> gets the values \<open>p1atoi(optarg)\<close> of the \<open>-q\<close> options in the
  order of the command line, each one overwriting the global \<open>QUANT_SECONDS\<close>, which
  starts at \<open>-1\<close>. \<open>QUANT_ENV\<close> is \<open>None\<close> when \<open>getenv("USPS_QUANTUM_MSEC")\<close> is \<open>NULL\<close>,
  and \<open>Some v\<close> with \<open>v = p1atoi(QUANT_ENV)\<close> otherwise.
\<close>

datatype error = NoEnvironmentVariable | NoQuantumGiven | ForkFailed | InChild | NullQueue
  | NullChild | WaitsForever | OutOfBounds | WildPointer | StringLiteral

definition EXIT_FAILURE :: int where
  "EXIT_FAILURE = 1"

definition MAX_PROCESSES :: int where
  "MAX_PROCESSES = 128"

fun getopt_loop :: "int list \<Rightarrow> int \<Rightarrow> int" where
  "getopt_loop [] QUANT_SECONDS = QUANT_SECONDS"
| "getopt_loop (optarg # rest) QUANT_SECONDS = getopt_loop rest optarg"

definition resolve_quantum :: "int list \<Rightarrow> int option \<Rightarrow> error + int" where
  "resolve_quantum qargs QUANT_ENV =
     (let QUANT_SECONDS = getopt_loop qargs (-1) in
      case QUANT_ENV of
        Some v \<Rightarrow>
          (let QUANT_SECONDS = (if QUANT_SECONDS < 0 then v else QUANT_SECONDS) in
           if QUANT_SECONDS < 0 then Inl NoQuantumGiven else Inr QUANT_SECONDS)
      | None \<Rightarrow>
          if QUANT_SECONDS < 0 then Inl NoEnvironmentVariable
          else if QUANT_SECONDS < 0 then Inl NoQuantumGiven
          else Inr QUANT_SECONDS)"

subsection \<open>The interval timer (uspsv3.c lines 120 to 123, uspsv4.c lines 124 to 127)\<close>

text \<open>
  \<^verbatim>\<open>timer.it_value.tv_sec = QUANT_SECONDS / 1000;
  timer.it_value.tv_usec = QUANT_SECONDS * 1000;
  timer.it_interval = timer.it_value;\<close>

  C's \<open>/\<close> truncates and is \<open>sdiv\<close>. The product is one of two \<open>int\<close>: \<open>int_times\<close> is
  the mathematical product for every quantum up to 2147483 ms and wraps to 32 bits
  beyond, where C leaves the result undefined.
\<close>

record timeval =
  tv_sec :: int
  tv_usec :: int

record itimerval =
  it_interval :: timeval
  it_value :: timeval

definition int_times :: "int \<Rightarrow> int \<Rightarrow> int" where
  "int_times a b = signed_take_bit 31 (a * b)"

definition set_up_timer :: "int \<Rightarrow> itimerval" where
  "set_up_timer QUANT_SECONDS =
     (let v = \<lparr>tv_sec = QUANT_SECONDS sdiv 1000, tv_usec = int_times QUANT_SECONDS 1000\<rparr>
      in \<lparr>it_interval = v, it_value = v\<rparr>)"

subsection \<open>Process control blocks and events\<close>

text \<open>
  \<open>totalCPUTime\<close> is a C \<open>float\<close>; the model uses a real number, which is exact for the
  integer amounts the scheduler adds as long as the total stays below \<open>2^24\<close>.
\<close>

record ChildProcess =
  pid :: int
  totalCPUTime :: real
  running :: bool
  finished :: bool

text \<open>
  What the program does to the outside world, in the order it does it: \<open>fork\<close>
  returning a child's pid, \<open>kill(pid, SIGCONT)\<close>, \<open>setitimer\<close>, \<open>waitpid(-1, WNOHANG)\<close> in
  \<open>sigchld_handler\<close> with its result, \<open>waitpid(pid, WNOHANG)\<close> in \<open>main\<close> with its result,
  \<open>kill(pid, SIGSTOP)\<close>, and \<open>free(child)\<close> of a finished control block.
\<close>

datatype event = Fork int | SigCont int | SetITimer itimerval | WaitAny int | WaitPid int int
  | SigStop int | Free int

subsection \<open>The kernel\<close>

text \<open>
  The kernel is the environment of the scheduler and no part of the sources. The model
  keeps, for every child that has not exited, the time in microseconds its program
  still has to run (\<open>procs\<close>), and the children that have exited and whose status no
  \<open>waitpid\<close> has returned yet (\<open>zombies\<close>). A child runs only between its \<open>SIGCONT\<close> and
  its \<open>SIGSTOP\<close>, and signals are delivered at once.

  \<open>setitimer\<close>: the time in microseconds after which \<open>SIGALRM\<close> is raised, if the call
  arms the timer at all. A value that is not in canonical form (a negative field, or
  \<open>tv_usec\<close> not below 1000000) makes the call fail with \<open>EINVAL\<close>, and a value of zero
  disarms the timer; \<open>main\<close> does not look at the result of the call.
\<close>

type_synonym proctab = "(int \<times> nat) list"

record kstate =
  procs :: proctab
  zombies :: "int list"

definition timeval_ok :: "timeval \<Rightarrow> bool" where
  "timeval_ok v = (0 \<le> tv_sec v \<and> 0 \<le> tv_usec v \<and> tv_usec v < 1000000)"

definition setitimer :: "itimerval \<Rightarrow> nat option" where
  "setitimer t =
     (if timeval_ok (it_value t) \<and> timeval_ok (it_interval t) then
        (let us = nat (tv_sec (it_value t) * 1000000 + tv_usec (it_value t))
         in if us = 0 then None else Some us)
      else None)"

text \<open>
  \<open>waitpid(-1, &status, WNOHANG)\<close> returns the pid of a child that has exited, and
  with it that child's status, which no later call gets again; without such a child it
  returns \<open>0\<close> when there are children and \<open>-1\<close> when there are none.
  \<open>waitpid(p, &status, WNOHANG)\<close> does the same for the one child \<open>p\<close>.
\<close>

definition waitpid_any :: "kstate \<Rightarrow> int \<times> kstate" where
  "waitpid_any k =
     (case zombies k of
        z # zs \<Rightarrow> (z, k\<lparr>zombies := zs\<rparr>)
      | [] \<Rightarrow> if procs k = [] then (-1, k) else (0, k))"

definition waitpid_of :: "kstate \<Rightarrow> int \<Rightarrow> int \<times> kstate" where
  "waitpid_of k p =
     (if p \<in> set (zombies k) then (p, k\<lparr>zombies := remove1 p (zombies k)\<rparr>)
      else if p \<in> fst ` set (procs k) then (0, k)
      else (-1, k))"

definition pt_run :: "int \<Rightarrow> nat \<Rightarrow> proctab \<Rightarrow> proctab" where
  "pt_run p t pt = map (\<lambda>(k, w). if k = p then (k, w - t) else (k, w)) pt"

definition pt_reap :: "int \<Rightarrow> proctab \<Rightarrow> proctab" where
  "pt_reap p pt = filter (\<lambda>(k, w). k \<noteq> p) pt"

definition child_exits :: "kstate \<Rightarrow> int \<Rightarrow> kstate" where
  "child_exits k p = k\<lparr>procs := pt_reap p (procs k), zombies := zombies k @ [p]\<rparr>"

subsection \<open>The signal handlers (uspsv3.c lines 209 to 226, uspsv4.c lines 299 to 316)\<close>

text \<open>
  \<^verbatim>\<open>while((pid = waitpid(-1, &status, WNOHANG)) > 0){
      if(WIFEXITED(status) || WIFSIGNALED(status)){ childRunning = false; }
      else{ p1perror(2, "Child exited with error\n"); }
  }\<close>

  \<open>sigchld_handler\<close> gets the kernel's state and the flag \<open>childRunning\<close> and returns
  both, with the calls of \<open>waitpid\<close> it made. Without \<open>WUNTRACED\<close> the call returns
  children that have terminated only, so the test on \<open>status\<close> holds for every pid it
  returns. The kernel raises \<open>SIGCHLD\<close> also when a child stops or continues; the
  handler's first \<open>waitpid\<close> then answers \<open>0\<close> or \<open>-1\<close> and nothing changes, and the model
  leaves these runs of the handler out. \<open>alarm_handler\<close> clears \<open>timeLeft\<close>, which ends
  the wait of \<open>main\<close>.
\<close>

function sigchld_handler :: "kstate \<Rightarrow> bool \<Rightarrow> event list \<Rightarrow> kstate \<times> bool \<times> event list" where
  "sigchld_handler k childRunning es =
     (case waitpid_any k of
        (r, k') \<Rightarrow>
          if 0 < r then sigchld_handler k' False (es @ [WaitAny r])
          else (k', childRunning, es @ [WaitAny r]))"
  by pat_completeness auto
termination
  by (relation "measure (\<lambda>(k, childRunning, es). length (zombies k))")
     (auto simp: waitpid_any_def split: list.splits if_splits)

declare sigchld_handler.simps [simp del]

subsection \<open>One quantum (uspsv3.c lines 174 to 185)\<close>

text \<open>
  \<open>await\<close> is the wait of \<open>main\<close> for the end of the quantum of the child \<open>p\<close> it has just
  sent \<open>SIGCONT\<close>, with \<open>childRunning\<close> and \<open>timeLeft\<close> set and the timer passed to
  \<open>setitimer\<close>; the loop itself is \<open>wait_loop\<close> below. A child that still has to run for
  longer than the timer takes is running when \<open>SIGALRM\<close> comes, and \<open>alarm_handler\<close>
  ends the wait. Otherwise, and always when no timer is armed, the child exits first:
  \<open>SIGCHLD\<close> comes, and \<open>sigchld_handler\<close> runs. The wait goes on for ever when neither
  handler ends it: \<open>childRunning\<close> stays set and no timer is armed. A pid that is no
  child gets no \<open>SIGCONT\<close> and nothing runs. \<open>await\<close> returns the kernel's state, the
  flag \<open>timeLeft\<close> and the calls \<open>sigchld_handler\<close> made.

  \<open>run_quantum\<close> adds the \<open>waitpid(child->pid, &status, WNOHANG)\<close> of \<open>main\<close> that
  follows the wait, and returns its answer first. It starts from the table of the
  children that have not exited: every child is stopped when the quantum starts, and
  the statuses of those that exited before have been taken (\<open>await_zombies\<close> below).
\<close>

definition await :: "itimerval \<Rightarrow> kstate \<Rightarrow> int \<Rightarrow> error + kstate \<times> bool \<times> event list" where
  "await timer k p =
     (case map_of (procs k) p of
        None \<Rightarrow>
          (case setitimer timer of
             None \<Rightarrow> Inl WaitsForever
           | Some t \<Rightarrow> Inr (k, False, []))
      | Some w \<Rightarrow>
          (case setitimer timer of
             Some t \<Rightarrow>
               if t < w then Inr (k\<lparr>procs := pt_run p t (procs k)\<rparr>, False, [])
               else (case sigchld_handler (child_exits k p) True [] of
                       (k', childRunning, hs) \<Rightarrow> Inr (k', \<not> childRunning, hs))
           | None \<Rightarrow>
               (case sigchld_handler (child_exits k p) True [] of
                  (k', childRunning, hs) \<Rightarrow>
                    if childRunning then Inl WaitsForever else Inr (k', True, hs))))"

definition run_quantum :: "itimerval \<Rightarrow> proctab \<Rightarrow> int \<Rightarrow> error + int \<times> proctab \<times> event list" where
  "run_quantum timer pt p =
     (case await timer \<lparr>procs = pt, zombies = []\<rparr> p of
        Inl e \<Rightarrow> Inl e
      | Inr (k, timeLeft, hs) \<Rightarrow> (case waitpid_of k p of (r, k') \<Rightarrow> Inr (r, procs k', hs)))"

subsection \<open>The scheduling loop (uspsv3.c lines 170 to 196)\<close>

text \<open>
  The state of the run: the global \<open>queue\<close>, the kernel's table of the children that
  have not exited, and the events so far. The queue holds pointers to control blocks;
  every block is pointed to from one place only (a queue cell or the local \<open>child\<close>), so
  the cell holds the block itself.

  One iteration of \<^verbatim>\<open>while(!queue->isEmpty(queue))\<close>: \<open>child\<close> starts as \<open>NULL\<close>, and
  \<open>child->pid\<close> on a \<open>NULL\<close> is the error \<open>NullChild\<close>. Allocation inside \<open>enqueue\<close> is
  taken to succeed. In the branch \<^verbatim>\<open>else\<close> uspsv3.c sets \<open>child->finished\<close> and frees the
  block. An iteration that fails returns the error with the events up to it.
\<close>

record sched =
  queue :: "ChildProcess QData"
  kernel :: proctab
  events :: "event list"

text \<open>
  What the branch \<^verbatim>\<open>if(pid == 0)\<close> does to the control block before it puts it back.
  uspsv3.c: \<^verbatim>\<open>child->totalCPUTime += QUANT_SECONDS/1000;\<close>, an \<open>int\<close> division whose result is
  converted to \<open>float\<close>. uspsv4.c (lines 273 to 276) has no such statement.
\<close>

definition preempted_v3 :: "int \<Rightarrow> ChildProcess \<Rightarrow> ChildProcess" where
  "preempted_v3 QUANT_SECONDS child =
     child\<lparr>totalCPUTime := totalCPUTime child + real_of_int (QUANT_SECONDS sdiv 1000)\<rparr>"

definition preempted_v4 :: "int \<Rightarrow> ChildProcess \<Rightarrow> ChildProcess" where
  "preempted_v4 QUANT_SECONDS child = child"

definition sched_iter :: "itimerval \<Rightarrow> int \<Rightarrow> sched \<Rightarrow> error \<times> event list + sched" where
  "sched_iter timer QUANT_SECONDS s =
     (case q_dequeue (queue s) None of
        (st, child, qd) \<Rightarrow>
          (case child of
             None \<Rightarrow> Inl (NullChild, events s)
           | Some c \<Rightarrow>
               (let ev = events s @ [SigCont (pid c), SetITimer timer] in
                case run_quantum timer (kernel s) (pid c) of
                  Inl e \<Rightarrow> Inl (e, ev)
                | Inr (r, k, hs) \<Rightarrow>
                    if r = 0 then
                      Inr \<lparr>queue = snd (q_enqueue True qd (Some (preempted_v3 QUANT_SECONDS c))),
                           kernel = k,
                           events = ev @ hs @ [WaitPid (pid c) r, SigStop (pid c)]\<rparr>
                    else
                      Inr \<lparr>queue = qd, kernel = k,
                           events = ev @ hs @ [WaitPid (pid c) r, Free (pid c)]\<rparr>)))"

text \<open>
  The loop ends: a child that is put back has used up some of the time it has to run,
  and a child that is not put back leaves the queue one element shorter.
\<close>

lemma sum_pt_reap: "sum_list (map snd (pt_reap p pt)) \<le> sum_list (map snd pt)"
  by (induction pt) (auto simp: pt_reap_def)

lemma sum_pt_run_le: "sum_list (map snd (pt_run p t pt)) \<le> sum_list (map snd pt)"
  by (induction pt) (auto simp: pt_run_def)

lemma sum_pt_run:
  "map_of pt p = Some w \<Longrightarrow> 0 < t \<Longrightarrow> t < w \<Longrightarrow>
     sum_list (map snd (pt_run p t pt)) < sum_list (map snd pt)"
proof (induction pt)
  case Nil
  then show ?case by simp
next
  case (Cons a pt)
  have le: "sum_list (map snd (pt_run p t pt)) \<le> sum_list (map snd pt)"
    by (rule sum_pt_run_le)
  show ?case
  proof (cases "fst a = p")
    case True
    then have "snd a = w" using Cons.prems by (cases a) auto
    then show ?thesis using True le Cons.prems(2,3) by (cases a) (auto simp: pt_run_def)
  next
    case False
    then have "map_of pt p = Some w" using Cons.prems by (cases a) auto
    then show ?thesis using False Cons by (cases a) (auto simp: pt_run_def)
  qed
qed

lemma setitimer_pos: "setitimer timer = Some t \<Longrightarrow> 0 < t"
  by (auto simp: setitimer_def Let_def split: if_splits)

lemma sigchld_handler_single:
  "sigchld_handler \<lparr>procs = pt, zombies = [p]\<rparr> cr es =
     (if 0 < p
      then (\<lparr>procs = pt, zombies = []\<rparr>, False,
            es @ [WaitAny p, WaitAny (if pt = [] then -1 else 0)])
      else (\<lparr>procs = pt, zombies = []\<rparr>, cr, es @ [WaitAny p]))"
  by (simp add: sigchld_handler.simps waitpid_any_def)

lemma await_cases:
  "await timer \<lparr>procs = pt, zombies = []\<rparr> p =
     (case map_of pt p of
        None \<Rightarrow> (case setitimer timer of None \<Rightarrow> Inl WaitsForever
                  | Some t \<Rightarrow> Inr (\<lparr>procs = pt, zombies = []\<rparr>, False, []))
      | Some w \<Rightarrow>
          if (case setitimer timer of None \<Rightarrow> False | Some t \<Rightarrow> t < w)
          then Inr (\<lparr>procs = pt_run p (the (setitimer timer)) pt, zombies = []\<rparr>, False, [])
          else if 0 < p
          then Inr (\<lparr>procs = pt_reap p pt, zombies = []\<rparr>, True,
                    [WaitAny p, WaitAny (if pt_reap p pt = [] then -1 else 0)])
          else if setitimer timer = None then Inl WaitsForever
          else Inr (\<lparr>procs = pt_reap p pt, zombies = []\<rparr>, False, [WaitAny p]))"
  by (simp add: await_def child_exits_def sigchld_handler_single split: option.splits)

lemma await_zombies:
  "await timer \<lparr>procs = pt, zombies = []\<rparr> p = Inr (k, timeLeft, hs) \<Longrightarrow> zombies k = []"
  by (auto simp: await_cases split: option.splits if_splits)

lemma pt_reap_notin: "p \<notin> fst ` set (pt_reap p pt)"
  by (auto simp: pt_reap_def)

lemma pt_run_keys: "fst ` set (pt_run p t pt) = fst ` set pt"
  by (induction pt) (auto simp: pt_run_def)

lemma pt_reap_keys: "fst ` set (pt_reap p pt) = fst ` set pt - {p}"
  by (induction pt) (auto simp: pt_reap_def)

text \<open>
  What a quantum comes to. A child that is in the table and has to run for longer than
  an armed timer takes is preempted: the answer of \<open>waitpid\<close> in \<open>main\<close> is \<open>0\<close>. In all
  other cases that answer is \<open>-1\<close>: either \<open>p\<close> is no child, or it has exited and
  \<open>sigchld_handler\<close> has taken its status before \<open>main\<close> asks.
\<close>

lemma run_quantum_cases:
  "run_quantum timer pt p =
     (case map_of pt p of
        None \<Rightarrow> (case setitimer timer of None \<Rightarrow> Inl WaitsForever
                  | Some t \<Rightarrow> Inr (-1, pt, []))
      | Some w \<Rightarrow>
          if (case setitimer timer of None \<Rightarrow> False | Some t \<Rightarrow> t < w)
          then Inr (0, pt_run p (the (setitimer timer)) pt, [])
          else if 0 < p
          then Inr (-1, pt_reap p pt, [WaitAny p, WaitAny (if pt_reap p pt = [] then -1 else 0)])
          else if setitimer timer = None then Inl WaitsForever
          else Inr (-1, pt_reap p pt, [WaitAny p]))"
proof (cases "map_of pt p")
  case None
  then have "p \<notin> fst ` set pt" by (simp add: map_of_eq_None_iff)
  then show ?thesis using None
    by (simp add: run_quantum_def await_cases waitpid_of_def split: option.splits)
next
  case (Some w)
  then have "p \<in> fst ` set pt" by (metis map_of_eq_None_iff option.distinct(1))
  then have "p \<in> fst ` set (pt_run p t pt)" for t by (simp add: pt_run_keys)
  then show ?thesis using Some pt_reap_notin [of p pt]
    by (simp add: run_quantum_def await_cases waitpid_of_def split: option.splits)
qed

lemma run_quantum_measure:
  assumes "run_quantum timer pt p = Inr (r, pt', hs)"
  shows "if r = 0 then sum_list (map snd pt') < sum_list (map snd pt)
         else sum_list (map snd pt') \<le> sum_list (map snd pt)"
proof (cases "map_of pt p")
  case None
  then show ?thesis using assms by (auto simp: run_quantum_cases split: option.splits)
next
  case (Some w)
  show ?thesis
  proof (cases "case setitimer timer of None \<Rightarrow> False | Some t \<Rightarrow> t < w")
    case True
    then obtain t where t: "setitimer timer = Some t" "t < w"
      by (cases "setitimer timer") auto
    then have "r = 0" "pt' = pt_run p t pt"
      using assms Some by (simp_all add: run_quantum_cases)
    then show ?thesis using sum_pt_run [OF Some setitimer_pos [OF t(1)] t(2)] by simp
  next
    case False
    then have "r = -1 \<and> pt' = pt_reap p pt"
      using assms Some by (auto simp: run_quantum_cases split: if_splits)
    then show ?thesis using sum_pt_reap [of p pt] by simp
  qed
qed

lemma run_quantum_measure_again:
  "run_quantum timer pt p = Inr (0, pt', hs) \<Longrightarrow> sum_list (map snd pt') < sum_list (map snd pt)"
  using run_quantum_measure [of timer pt p 0 pt' hs] by simp

lemma run_quantum_measure_done:
  "run_quantum timer pt p = Inr (r, pt', hs) \<Longrightarrow> r \<noteq> 0 \<Longrightarrow>
     sum_list (map snd pt') < Suc (sum_list (map snd pt))"
  using run_quantum_measure [of timer pt p r pt' hs] by simp

lemma qd_count_enqueue: "qd_count (snd (q_enqueue True qd e)) = qd_count qd + 1"
  by (simp add: q_enqueue_def q_put_def q_grow_def Let_def)

lemma qd_count_dequeue:
  "q_dequeue qd el = (st, x, qd') \<Longrightarrow> x \<noteq> el \<Longrightarrow> 0 < qd_count qd \<and> qd_count qd' = qd_count qd - 1"
  by (auto simp: q_dequeue_def Let_def split: if_splits)

lemma sched_iter_measure:
  assumes "sched_iter timer q s = Inr s'"
  shows "sum_list (map snd (kernel s')) + nat (qd_count (queue s'))
          < sum_list (map snd (kernel s)) + nat (qd_count (queue s))"
proof -
  obtain st child qd where d: "q_dequeue (queue s) None = (st, child, qd)"
    by (cases "q_dequeue (queue s) None") auto
  obtain c where c: "child = Some c"
    using assms d by (cases child) (auto simp: sched_iter_def)
  obtain r k hs where rq: "run_quantum timer (kernel s) (pid c) = Inr (r, k, hs)"
    using assms d c by (auto simp: sched_iter_def Let_def split: sum.splits)
  have cnt: "0 < qd_count (queue s)" "qd_count qd = qd_count (queue s) - 1"
    using qd_count_dequeue [OF d] c by simp_all
  note m = run_quantum_measure [OF rq]
  show ?thesis
  proof (cases "r = 0")
    case True
    then have "kernel s' = k" "qd_count (queue s') = qd_count (queue s)"
      using assms d c rq cnt by (auto simp: sched_iter_def Let_def qd_count_enqueue)
    then show ?thesis using m True by simp
  next
    case False
    then have "kernel s' = k" "qd_count (queue s') = qd_count (queue s) - 1"
      using assms d c rq cnt by (auto simp: sched_iter_def Let_def)
    then show ?thesis using m False cnt by simp
  qed
qed

function sched_loop :: "itimerval \<Rightarrow> int \<Rightarrow> sched \<Rightarrow> error \<times> event list + sched" where
  "sched_loop timer QUANT_SECONDS s =
     (if q_isEmpty (queue s) then Inr s
      else (case sched_iter timer QUANT_SECONDS s of
              Inl e \<Rightarrow> Inl e
            | Inr s' \<Rightarrow> sched_loop timer QUANT_SECONDS s'))"
  by pat_completeness auto
termination
  by (relation "measure (\<lambda>(timer, q, s). sum_list (map snd (kernel s)) + nat (qd_count (queue s)))")
     (auto simp: sched_iter_measure)

declare sched_loop.simps [simp del]

subsection \<open>Launching (uspsv3.c lines 130 to 166) and the whole of main\<close>

text \<open>
  One entry of \<open>cmds\<close> for every line \<open>p1getline\<close> reads: what \<open>fork\<close> returns for it, and
  the time in microseconds the command runs for (known to the kernel only). A result of
  \<open>-1\<close> ends the run with \<open>EXIT_FAILURE\<close>; \<open>0\<close> is the child's side of the fork, which
  stops itself and then becomes the command. Every other result is the pid of a new
  child, stopped before it executes its program; \<open>new_pcb\<close> is the control block \<open>main\<close>
  allocates for it.
\<close>

definition new_pcb :: "int \<Rightarrow> ChildProcess" where
  "new_pcb p = \<lparr>pid = p, totalCPUTime = 0, running = False, finished = False\<rparr>"

fun launch :: "(int \<times> nat) list \<Rightarrow> sched \<Rightarrow> error option \<times> sched" where
  "launch [] s = (None, s)"
| "launch ((r, w) # cmds) s =
     (if r = -1 then (Some ForkFailed, s)
      else if r = 0 then (Some InChild, s)
      else
        (let child = new_pcb r
         in launch cmds \<lparr>queue = snd (q_enqueue True (queue s) (Some child)),
                         kernel = kernel s @ [(r, w)],
                         events = events s @ [Fork r]\<rparr>))"

text \<open>
  \<open>main\<close> of uspsv3.c: the exit status and the events of the run, or the error the run
  fails with and the events up to it. \<open>fd\<close> is the descriptor the commands are read
  from: \<open>0\<close>, or what \<open>open\<close> returned for the file named on the command line. The
  allocations of \<open>main\<close> are taken to succeed.
\<close>

datatype outcome = Exited int "event list" | Child | Failed error "event list"

definition usps :: "int \<Rightarrow> int list \<Rightarrow> int option \<Rightarrow> int \<Rightarrow> (int \<times> nat) list \<Rightarrow> outcome" where
  "usps DEFAULT_QUEUE_CAPACITY qargs QUANT_ENV fd cmds =
     (case resolve_quantum qargs QUANT_ENV of
        Inl e \<Rightarrow> Exited EXIT_FAILURE []
      | Inr QUANT_SECONDS \<Rightarrow>
          if fd = -1 then Exited EXIT_FAILURE []
          else
            (case ArrayQueue True DEFAULT_QUEUE_CAPACITY MAX_PROCESSES of
               None \<Rightarrow> Failed NullQueue []
             | Some q \<Rightarrow>
                 (case launch cmds \<lparr>queue = q, kernel = [], events = []\<rparr> of
                    (Some InChild, s) \<Rightarrow> Child
                  | (Some e, s) \<Rightarrow> Exited EXIT_FAILURE (events s)
                  | (None, s) \<Rightarrow>
                      (case sched_loop (set_up_timer QUANT_SECONDS) QUANT_SECONDS s of
                         Inl (e, es) \<Rightarrow> Failed e es
                       | Inr s' \<Rightarrow> Exited 0 (events s')))))"

subsection \<open>The wait for the end of the quantum (uspsv3.c lines 180 to 182)\<close>


subsection \<open>main of uspsv4.c\<close>

text \<open>
  Lines 179 to 188:

  \<^verbatim>\<open>char** table = (char**)malloc(8 * sizeof(char*));
  for(int i = 0; i < numProcesses; i++){ table[i] = (char*)malloc(MAX_LINE_SIZE * sizeof(char)); }
  ...
  table[0] = header;\<close>

  A cell of \<open>table\<close> points to the string literal \<open>header\<close>, or to a block from \<open>malloc\<close>
  that nothing was written to, or it was never assigned (\<open>Wild\<close>).
\<close>

datatype cell = Header | Buffer | Wild

definition new_table :: "int \<Rightarrow> error + cell list" where
  "new_table numProcesses =
     (if 8 < numProcesses then Inl OutOfBounds
      else Inr ((replicate (nat numProcesses) Buffer @ replicate (8 - nat numProcesses) Wild)
                  [0 := Header]))"

text \<open>
  The body of the wait loop (lines 200 to 266), at its first pass in a quantum; the
  condition of the loop holds then, for \<open>main\<close> has just set both flags. The branch for
  \<open>timeRuning % 2000 != 0\<close> starts with

  \<^verbatim>\<open>p1itoa(timeRuning, pidStr);
  p1strcat(line2, pidStr);\<close>

  where \<open>line2\<close> points to a string literal: appending to it is the error
  \<open>StringLiteral\<close>. The other branch is

  \<^verbatim>\<open>for(int i = 0; i < 12; i++){ p1putstr(1, table[i]); p1putchr(1, '\n'); }\<close>

  \<open>put_rows table i n\<close> prints \<open>n\<close> rows from row \<open>i\<close> on. A row past the end of \<open>table\<close>
  is the error \<open>OutOfBounds\<close>, and a cell that was never assigned the error
  \<open>WildPointer\<close>. \<open>p1strcat\<close> and \<open>p1putstr\<close> are not part of the sources; they are taken
  to append to, and to read, the string they are given.
\<close>

fun put_rows :: "cell list \<Rightarrow> nat \<Rightarrow> nat \<Rightarrow> error option" where
  "put_rows table i 0 = None"
| "put_rows table i (Suc n) =
     (if length table \<le> i then Some OutOfBounds
      else if table ! i = Wild then Some WildPointer
      else put_rows table (Suc i) n)"

definition status_table :: "int \<Rightarrow> cell list \<Rightarrow> error option" where
  "status_table timeRuning table =
     (if timeRuning smod 2000 \<noteq> 0 then Some StringLiteral else put_rows table 0 12)"

text \<open>
  The branch \<^verbatim>\<open>else\<close> of the exit-status check (lines 277 to 286) strikes the pid from
  the first \<open>numProcesses\<close> cells of \<open>pid_list\<close>:

  \<^verbatim>\<open>for(int i = 0; i < numProcesses; i++){
      if(pid_list[i] == child->pid){ pid_list[i] = -1; break; }
  }
  numProcesses--;\<close>
\<close>

fun strike :: "int \<Rightarrow> nat \<Rightarrow> int option list \<Rightarrow> int option list" where
  "strike p 0 pl = pl"
| "strike p (Suc n) [] = []"
| "strike p (Suc n) (x # pl) = (if x = Some p then Some (-1) # pl else x # strike p n pl)"

text \<open>
  The end of a quantum as in uspsv3.c, with the \<open>timeRuning\<close> that \<open>alarm_handler\<close>
  leaves.
\<close>

definition await_v4 :: "itimerval \<Rightarrow> int \<Rightarrow> proctab \<Rightarrow> int \<Rightarrow> int \<Rightarrow>
    error + int \<times> proctab \<times> int \<times> event list" where
  "await_v4 timer QUANT_SECONDS pt timeRuning p =
     (case await timer \<lparr>procs = pt, zombies = []\<rparr> p of
        Inl e \<Rightarrow> Inl e
      | Inr (k, timeLeft, hs) \<Rightarrow>
          (case waitpid_of k p of
             (r, k') \<Rightarrow>
               Inr (r, procs k', (if timeLeft then timeRuning else timeRuning + QUANT_SECONDS), hs)))"

text \<open>
  uspsv4.c has the \<open>main\<close> of uspsv3.c with a status table added. While it launches, it
  records the pids in the array \<open>pid_list\<close> of \<open>MAX_PROCESSES\<close> cells and counts them in
  \<open>numProcesses\<close>; a write past the end of an array is the error \<open>OutOfBounds\<close>. The
  global \<open>timeRuning\<close> is an \<open>int\<close> here, and \<open>alarm_handler\<close> adds \<open>QUANT_SECONDS\<close> to it.
\<close>

record sched_v4 =
  sch :: sched
  pid_list :: "int option list"
  numProcesses :: int
  timeRuning :: int

fun launch_v4 :: "(int \<times> nat) list \<Rightarrow> sched_v4 \<Rightarrow> error option \<times> sched_v4" where
  "launch_v4 [] s = (None, s)"
| "launch_v4 ((r, w) # cmds) s =
     (if r = -1 then (Some ForkFailed, s)
      else if r = 0 then (Some InChild, s)
      else
        (let child = new_pcb r;
             s' = s\<lparr>sch := \<lparr>queue = snd (q_enqueue True (queue (sch s)) (Some child)),
                             kernel = kernel (sch s) @ [(r, w)],
                             events = events (sch s) @ [Fork r]\<rparr>\<rparr>
         in if numProcesses s < 0 \<or> int (length (pid_list s)) \<le> numProcesses s
            then (Some OutOfBounds, s')
            else launch_v4 cmds (s'\<lparr>pid_list := (pid_list s)[nat (numProcesses s) := Some r],
                                     numProcesses := numProcesses s + 1\<rparr>)))"

text \<open>
  One iteration of the scheduling loop (lines 189 to 287). A first pass through the
  body of the wait loop that fails ends the run; one that does not is repeated
  unchanged until a handler clears a flag, and the quantum ends as in uspsv3.c.
\<close>

definition sched_iter_v4 ::
    "cell list \<Rightarrow> itimerval \<Rightarrow> int \<Rightarrow> sched_v4 \<Rightarrow> error \<times> event list + sched_v4" where
  "sched_iter_v4 table timer QUANT_SECONDS s =
     (case q_dequeue (queue (sch s)) None of
        (st, child, qd) \<Rightarrow>
          (case child of
             None \<Rightarrow> Inl (NullChild, events (sch s))
           | Some c \<Rightarrow>
               (let ev = events (sch s) @ [SigCont (pid c), SetITimer timer] in
                case status_table (timeRuning s) table of
                  Some e \<Rightarrow> Inl (e, ev)
                | None \<Rightarrow>
                    (case await_v4 timer QUANT_SECONDS (kernel (sch s)) (timeRuning s) (pid c) of
                       Inl e \<Rightarrow> Inl (e, ev)
                     | Inr (r, k, t, hs) \<Rightarrow>
                         if r = 0 then
                           Inr (s\<lparr>sch := \<lparr>queue = snd (q_enqueue True qd
                                                      (Some (preempted_v4 QUANT_SECONDS c))),
                                           kernel = k,
                                           events = ev @ hs @ [WaitPid (pid c) r, SigStop (pid c)]\<rparr>,
                                  timeRuning := t\<rparr>)
                         else
                           Inr (s\<lparr>sch := \<lparr>queue = qd, kernel = k,
                                           events = ev @ hs @ [WaitPid (pid c) r, Free (pid c)]\<rparr>,
                                  pid_list := strike (pid c) (nat (numProcesses s)) (pid_list s),
                                  numProcesses := numProcesses s - 1,
                                  timeRuning := t\<rparr>)))))"

lemma await_v4_run_quantum:
  "await_v4 timer q pt tr p = Inr (r, pt', t, hs) \<Longrightarrow> run_quantum timer pt p = Inr (r, pt', hs)"
  by (auto simp: await_v4_def run_quantum_def split: sum.splits prod.splits)

lemma sched_iter_v4_measure:
  assumes "sched_iter_v4 table timer q s = Inr s'"
  shows "sum_list (map snd (kernel (sch s'))) + nat (qd_count (queue (sch s')))
          < sum_list (map snd (kernel (sch s))) + nat (qd_count (queue (sch s)))"
proof -
  obtain st child qd where d: "q_dequeue (queue (sch s)) None = (st, child, qd)"
    by (cases "q_dequeue (queue (sch s)) None") auto
  obtain c where c: "child = Some c"
    using assms d by (cases child) (auto simp: sched_iter_v4_def)
  obtain r k t hs where
    aw: "await_v4 timer q (kernel (sch s)) (timeRuning s) (pid c) = Inr (r, k, t, hs)"
    using assms d c by (auto simp: sched_iter_v4_def Let_def split: sum.splits option.splits)
  have cnt: "0 < qd_count (queue (sch s))" "qd_count qd = qd_count (queue (sch s)) - 1"
    using qd_count_dequeue [OF d] c by simp_all
  note m = run_quantum_measure [OF await_v4_run_quantum [OF aw]]
  show ?thesis
  proof (cases "r = 0")
    case True
    then have "kernel (sch s') = k" "qd_count (queue (sch s')) = qd_count (queue (sch s))"
      using assms d c aw cnt
      by (auto simp: sched_iter_v4_def Let_def qd_count_enqueue split: option.splits)
    then show ?thesis using m True by simp
  next
    case False
    then have "kernel (sch s') = k" "qd_count (queue (sch s')) = qd_count (queue (sch s)) - 1"
      using assms d c aw cnt by (auto simp: sched_iter_v4_def Let_def split: option.splits)
    then show ?thesis using m False cnt by simp
  qed
qed

function sched_loop_v4 ::
    "cell list \<Rightarrow> itimerval \<Rightarrow> int \<Rightarrow> sched_v4 \<Rightarrow> error \<times> event list + sched_v4" where
  "sched_loop_v4 table timer QUANT_SECONDS s =
     (if q_isEmpty (queue (sch s)) then Inr s
      else (case sched_iter_v4 table timer QUANT_SECONDS s of
              Inl e \<Rightarrow> Inl e
            | Inr s' \<Rightarrow> sched_loop_v4 table timer QUANT_SECONDS s'))"
  by pat_completeness auto
termination
  by (relation "measure (\<lambda>(table, timer, q, s).
         sum_list (map snd (kernel (sch s))) + nat (qd_count (queue (sch s))))")
     (auto simp: sched_iter_v4_measure)

declare sched_loop_v4.simps [simp del]

definition uspsv4 :: "int \<Rightarrow> int list \<Rightarrow> int option \<Rightarrow> int \<Rightarrow> (int \<times> nat) list \<Rightarrow> outcome" where
  "uspsv4 DEFAULT_QUEUE_CAPACITY qargs QUANT_ENV fd cmds =
     (case resolve_quantum qargs QUANT_ENV of
        Inl e \<Rightarrow> Exited EXIT_FAILURE []
      | Inr QUANT_SECONDS \<Rightarrow>
          if fd = -1 then Exited EXIT_FAILURE []
          else
            (case ArrayQueue True DEFAULT_QUEUE_CAPACITY MAX_PROCESSES of
               None \<Rightarrow> Failed NullQueue []
             | Some q \<Rightarrow>
                 (case launch_v4 cmds
                         \<lparr>sch = \<lparr>queue = q, kernel = [], events = []\<rparr>,
                          pid_list = replicate (nat MAX_PROCESSES) None,
                          numProcesses = 0, timeRuning = 0\<rparr> of
                    (Some InChild, s) \<Rightarrow> Child
                  | (Some OutOfBounds, s) \<Rightarrow> Failed OutOfBounds (events (sch s))
                  | (Some e, s) \<Rightarrow> Exited EXIT_FAILURE (events (sch s))
                  | (None, s) \<Rightarrow>
                      (case new_table (numProcesses s) of
                         Inl e \<Rightarrow> Failed e (events (sch s))
                       | Inr table \<Rightarrow>
                           (case sched_loop_v4 table (set_up_timer QUANT_SECONDS) QUANT_SECONDS s of
                              Inl (e, es) \<Rightarrow> Failed e es
                            | Inr s' \<Rightarrow> Exited 0 (events (sch s')))))))"

subsection \<open>The scheduler of the specification\<close>

text \<open>
  The state machine of the specification on a plain list as ReadyQueue, for comparison
  with \<open>sched_loop\<close>. DISPATCHING: an empty queue ends the run; otherwise the front
  control block is taken, its process resumed and the timer armed. REAPING: a process
  that has exited is finalized; one that has not is suspended and its block goes to the
  back of the queue. The result is the list of events; it ends where the wait for the
  end of a quantum does not end.
\<close>

function round_robin :: "itimerval \<Rightarrow> int \<Rightarrow> proctab \<Rightarrow> ChildProcess list \<Rightarrow> event list" where
  "round_robin timer q k [] = []"
| "round_robin timer q k (c # cs) =
     [SigCont (pid c), SetITimer timer] @
     (case run_quantum timer k (pid c) of
        Inl e \<Rightarrow> []
      | Inr (r, k', hs) \<Rightarrow>
          hs @ [WaitPid (pid c) r] @
          (if r = 0 then SigStop (pid c) # round_robin timer q k' (cs @ [preempted_v3 q c])
           else Free (pid c) # round_robin timer q k' cs))"
  by pat_completeness auto
termination
  by (relation "measure (\<lambda>(timer, q, k, cs). sum_list (map snd k) + length cs)")
     (auto simp: run_quantum_measure_again run_quantum_measure_done)

text \<open>
  Readings of a list of events: the pids in the order they were resumed; the children
  that have been resumed and neither suspended nor finalized since; the children that
  were created and not finalized.
\<close>

fun dispatches :: "event list \<Rightarrow> int list" where
  "dispatches [] = []"
| "dispatches (SigCont p # es) = p # dispatches es"
| "dispatches (e # es) = dispatches es"

fun resumed_step :: "int list \<Rightarrow> event \<Rightarrow> int list" where
  "resumed_step ps (SigCont p) = p # ps"
| "resumed_step ps (SigStop p) = remove1 p ps"
| "resumed_step ps (Free p) = remove1 p ps"
| "resumed_step ps e = ps"

definition resumed :: "event list \<Rightarrow> int list" where
  "resumed es = foldl resumed_step [] es"

definition live :: "event list \<Rightarrow> int set" where
  "live es = {p. Fork p \<in> set es} - {p. Free p \<in> set es}"

text \<open>
  More readings. \<open>reaped\<close>: the pids that a \<open>waitpid\<close> returned, in the handler or in
  \<open>main\<close>; the call that returns a pid is the one that obtains that child's exit status.
  \<open>frees\<close>: the handles whose control block was freed. \<open>checks\<close>: the handles the
  exit-status checks of \<open>main\<close> queried. \<open>handled\<close>: the handles that \<open>main\<close> did
  anything at all to. \<open>free_is_final\<close>: once a control block is freed, \<open>main\<close> does
  nothing to its handle any more. \<open>reaped_running\<close>: every pid that a \<open>waitpid\<close> returned
  was that of the one child resumed at the time.
\<close>

fun reaped :: "event list \<Rightarrow> int list" where
  "reaped [] = []"
| "reaped (WaitAny r # es) = (if 0 < r then r # reaped es else reaped es)"
| "reaped (WaitPid p r # es) = (if 0 < r then r # reaped es else reaped es)"
| "reaped (e # es) = reaped es"

fun frees :: "event list \<Rightarrow> int list" where
  "frees [] = []"
| "frees (Free p # es) = p # frees es"
| "frees (e # es) = frees es"

fun checks :: "event list \<Rightarrow> int list" where
  "checks [] = []"
| "checks (WaitPid p r # es) = p # checks es"
| "checks (e # es) = checks es"

fun handled :: "event list \<Rightarrow> int list" where
  "handled [] = []"
| "handled (SigCont p # es) = p # handled es"
| "handled (WaitPid p r # es) = p # handled es"
| "handled (SigStop p # es) = p # handled es"
| "handled (Free p # es) = p # handled es"
| "handled (e # es) = handled es"

fun free_is_final :: "event list \<Rightarrow> bool" where
  "free_is_final [] = True"
| "free_is_final (Free p # es) = (p \<notin> set (handled es) \<and> free_is_final es)"
| "free_is_final (e # es) = free_is_final es"

fun reaped_running :: "int list \<Rightarrow> event list \<Rightarrow> bool" where
  "reaped_running ps [] = True"
| "reaped_running ps (WaitAny r # es) = ((0 < r \<longrightarrow> ps = [r]) \<and> reaped_running ps es)"
| "reaped_running ps (WaitPid p r # es) = ((0 < r \<longrightarrow> ps = [r]) \<and> reaped_running ps es)"
| "reaped_running ps (e # es) = reaped_running (resumed_step ps e) es"

text \<open>
  The control blocks in the queue, front first, and their pids.
\<close>

definition ready_pcbs :: "sched \<Rightarrow> ChildProcess list" where
  "ready_pcbs s = map the (q_elems (queue s))"

definition ready :: "sched \<Rightarrow> int list" where
  "ready s = map pid (ready_pcbs s)"

subsection \<open>Invariants and properties of a run\<close>

text \<open>
  A state of the run is well formed when its queue is, and no cell among the elements
  is \<open>NULL\<close>.
\<close>

definition sched_inv :: "sched \<Rightarrow> bool" where
  "sched_inv s = (q_inv (queue s) \<and> None \<notin> set (q_elems (queue s)))"

text \<open>
  One iteration of the scheduling loop as a step from state to state, and what holds at
  the head of every iteration: the pids in the queue are distinct and are those of the
  children created and not yet finalized; no child is resumed, and at no earlier point
  was more than one; the control blocks in the queue are neither running nor finished;
  the kernel's table holds the children in the queue and no other.
\<close>

definition sched_step :: "itimerval \<Rightarrow> int \<Rightarrow> sched \<Rightarrow> sched \<Rightarrow> bool" where
  "sched_step timer q s s' = (\<not> q_isEmpty (queue s) \<and> sched_iter timer q s = Inr s')"

definition sched_ok :: "sched \<Rightarrow> bool" where
  "sched_ok s =
     (sched_inv s \<and> distinct (ready s) \<and> set (ready s) = live (events s) \<and>
      resumed (events s) = [] \<and>
      (\<forall>n. length (resumed (take n (events s))) \<le> 1) \<and>
      (\<forall>c \<in> set (ready_pcbs s). \<not> running c \<and> \<not> finished c) \<and>
      fst ` set (kernel s) = set (ready s))"

text \<open>
  Round-robin fairness of a run, read off its events: whenever a process is resumed
  again (at \<open>j\<close>, after \<open>i\<close>), every process that is unfinished at that point (created
  and not finalized before \<open>j\<close>) has been resumed at \<open>i\<close> or between \<open>i\<close> and \<open>j\<close>. A
  process that was created and never resumed counts as unfinished.
\<close>

definition fair_run :: "event list \<Rightarrow> bool" where
  "fair_run es =
     (\<forall>j<length es. \<forall>i<j. \<forall>p. es ! i = SigCont p \<and> es ! j = SigCont p \<longrightarrow>
        (\<forall>x \<in> live (take j es). SigCont x \<in> set (take (j - i) (drop i es))))"

text \<open>
  The same for the events that follow the launch, \<open>L\<close> being the children that were
  created.
\<close>

definition fair_from :: "int set \<Rightarrow> event list \<Rightarrow> bool" where
  "fair_from L es =
     (\<forall>j<length es. \<forall>i<j. \<forall>p. es ! i = SigCont p \<and> es ! j = SigCont p \<longrightarrow>
        (\<forall>x \<in> L - {y. Free y \<in> set (take j es)}. SigCont x \<in> set (take (j - i) (drop i es))))"

section \<open>Properties of the queue\<close>

lemma int_of_long_id: "0 \<le> x \<Longrightarrow> x \<le> INT_MAX \<Longrightarrow> int_of_long x = x"
  by (simp add: int_of_long_def INT_MAX_def signed_take_bit_int_eq_self)

lemma smod_nonneg: "0 \<le> a \<Longrightarrow> 0 < b \<Longrightarrow> a smod b = a mod (b::int)"
  by (simp add: smod_mod_positive)

text \<open>
  C10. On an empty queue (\<open>count = 0\<close>) \<open>q_dequeue\<close> and \<open>q_front\<close> return false, the
  queue record (count, in, out and the buffer) is the one passed in, and the
  out-parameter keeps the content it had before the call.
\<close>

theorem empty_queue_untouched:
  "qd_count qd = 0 \<Longrightarrow>
     q_dequeue qd element = (False, element, qd) \<and> q_front qd element = (False, element)"
  by (simp add: q_dequeue_def q_front_def)

theorem empty_queue_untouched_witness:
  "qd_count \<lparr>qd_count = 0, qd_size = 2, qd_in = 1, qd_out = 1, qd_buffer = [Some (7::nat), None]\<rparr> = 0 \<and>
   q_dequeue \<lparr>qd_count = 0, qd_size = 2, qd_in = 1, qd_out = 1, qd_buffer = [Some (7::nat), None]\<rparr> (Some 3)
     = (False, Some 3, \<lparr>qd_count = 0, qd_size = 2, qd_in = 1, qd_out = 1, qd_buffer = [Some 7, None]\<rparr>) \<and>
   q_front \<lparr>qd_count = 0, qd_size = 2, qd_in = 1, qd_out = 1, qd_buffer = [Some (7::nat), None]\<rparr> (Some 3)
     = (False, Some 3)"
  using empty_queue_untouched
    [of "\<lparr>qd_count = 0, qd_size = 2, qd_in = 1, qd_out = 1, qd_buffer = [Some (7::nat), None]\<rparr>" "Some 3"]
  by simp

lemma length_copy_loop: "length (copy_loop buf sz i j n tmp) = length tmp"
  by (induction n arbitrary: i j tmp) simp_all

lemma nth_copy_loop:
  "0 \<le> i \<Longrightarrow> i < sz \<Longrightarrow> 0 \<le> j \<Longrightarrow> nat j + n \<le> length tmp \<Longrightarrow> m < length tmp \<Longrightarrow>
   copy_loop buf sz i j n tmp ! m =
     (if nat j \<le> m \<and> m < nat j + n then buf ! nat ((i + int (m - nat j)) mod sz) else tmp ! m)"
proof (induction n arbitrary: i j tmp)
  case 0
  then show ?case by auto
next
  case (Suc n)
  have sm: "(i + 1) smod sz = (i + 1) mod sz"
    using Suc.prems by (simp add: smod_nonneg)
  have i': "0 \<le> (i + 1) mod sz" "(i + 1) mod sz < sz"
    using Suc.prems by simp_all
  have j': "0 \<le> j + 1" "nat (j + 1) = Suc (nat j)"
    using Suc.prems by simp_all
  have len: "nat (j + 1) + n \<le> length (tmp[nat j := buf ! nat i])"
    using Suc.prems j' by simp
  have m: "m < length (tmp[nat j := buf ! nat i])"
    using Suc.prems by simp
  note IH = Suc.IH [OF i' j'(1) len m]
  show ?case
  proof (cases "m = nat j")
    case True
    then show ?thesis using Suc.prems IH j' sm by simp
  next
    case False
    show ?thesis
    proof (cases "nat j < m \<and> m < nat j + Suc n")
      case True
      then have e: "int (m - nat j) = int (m - Suc (nat j)) + 1" by linarith
      have "((i + 1) mod sz + int (m - Suc (nat j))) mod sz = (i + int (m - nat j)) mod sz"
        unfolding e by (simp add: mod_simps algebra_simps)
      then show ?thesis using True IH j' sm by simp
    next
      case False2: False
      then show ?thesis using False IH j' sm Suc.prems by auto
    qed
  qed
qed

lemma mod_shift_inj:
  fixes sz :: int
  assumes "0 \<le> k" "k < c" "c < sz" "(a + k) mod sz = (a + c) mod sz"
  shows False
proof -
  have "(a + c - (a + k)) mod sz = 0"
    using assms(4) by (metis mod_diff_cong mod_self diff_self mod_0)
  then have "sz dvd (c - k)" by (simp add: mod_eq_0_iff_dvd)
  moreover have "0 < c - k" "c - k < sz" using assms by simp_all
  ultimately show False by (simp add: zdvd_not_zless)
qed

lemma q_grow_props:
  assumes inv: "q_inv qd" and full: "qd_count qd = qd_size qd" and bound: "2 * qd_size qd \<le> INT_MAX"
  shows "q_inv (q_grow qd)" and "q_elems (q_grow qd) = q_elems qd"
    and "qd_count (q_grow qd) = qd_count qd" and "qd_size (q_grow qd) = 2 * qd_size qd"
proof -
  let ?sz = "qd_size qd"
  let ?tmp = "copy_loop (qd_buffer qd) ?sz (qd_out qd) 0 (nat (qd_count qd)) (replicate (nat (2 * ?sz)) None)"
  have g: "q_grow qd = qd\<lparr>qd_buffer := ?tmp, qd_size := 2 * ?sz, qd_out := 0, qd_in := int_of_long (qd_count qd)\<rparr>"
    by (simp add: q_grow_def Let_def)
  have sz: "0 < ?sz" "?sz \<le> INT_MAX" "0 \<le> qd_out qd" "qd_out qd < ?sz"
    using inv by (simp_all add: q_inv_def)
  have inl: "int_of_long (qd_count qd) = qd_count qd" "int_of_long ?sz = ?sz"
    using sz full by (simp_all add: int_of_long_id)
  show "qd_count (q_grow qd) = qd_count qd" by (simp add: g)
  show "qd_size (q_grow qd) = 2 * qd_size qd" by (simp add: g)
  show "q_inv (q_grow qd)"
    using sz full bound by (simp add: g q_inv_def inl length_copy_loop)
  show "q_elems (q_grow qd) = q_elems qd"
  proof (rule nth_equalityI)
    show "length (q_elems (q_grow qd)) = length (q_elems qd)"
      by (simp add: q_elems_def g)
  next
    fix k assume "k < length (q_elems (q_grow qd))"
    then have k: "k < nat ?sz" using full by (simp add: q_elems_def g)
    then have kk: "int k mod (2 * ?sz) = int k" using sz by simp
    have "?tmp ! k = qd_buffer qd ! nat ((qd_out qd + int k) mod ?sz)"
      using nth_copy_loop [of "qd_out qd" ?sz 0 "nat (qd_count qd)" "replicate (nat (2 * ?sz)) None" k "qd_buffer qd"]
        sz k full by simp
    then show "q_elems (q_grow qd) ! k = q_elems qd ! k"
      using k full kk by (simp add: q_elems_def g)
  qed
qed

lemma q_put_props:
  assumes inv: "q_inv qd" and room: "qd_count qd < qd_size qd"
  shows "q_inv (q_put qd e)" and "q_elems (q_put qd e) = q_elems qd @ [e]"
    and "qd_size (q_put qd e) = qd_size qd" and "qd_count (q_put qd e) = qd_count qd + 1"
proof -
  let ?sz = "qd_size qd"
  let ?i = "qd_in qd"
  have sz: "0 < ?sz" "?sz \<le> INT_MAX" "0 \<le> qd_out qd" "qd_out qd < ?sz" "0 \<le> qd_count qd"
    "length (qd_buffer qd) = nat ?sz"
    using inv by (simp_all add: q_inv_def)
  have i: "?i = (qd_out qd + qd_count qd) mod ?sz" using inv by (simp add: q_inv_def)
  have irange: "0 \<le> ?i" "?i < ?sz" using sz i by simp_all
  have nxt: "int_of_long ((?i + 1) smod ?sz) = (qd_out qd + (qd_count qd + 1)) mod ?sz"
  proof -
    have "(?i + 1) smod ?sz = (?i + 1) mod ?sz" using irange sz by (simp add: smod_nonneg)
    also have "\<dots> = (qd_out qd + (qd_count qd + 1)) mod ?sz"
      unfolding i by (simp add: mod_simps algebra_simps)
    finally have e: "(?i + 1) smod ?sz = (qd_out qd + (qd_count qd + 1)) mod ?sz" .
    have "0 \<le> (qd_out qd + (qd_count qd + 1)) mod ?sz" "(qd_out qd + (qd_count qd + 1)) mod ?sz \<le> INT_MAX"
      using sz by (simp, smt (verit) pos_mod_bound)
    then show ?thesis unfolding e by (rule int_of_long_id)
  qed
  have p: "q_put qd e = qd\<lparr>qd_buffer := (qd_buffer qd)[nat ?i := e],
      qd_in := (qd_out qd + (qd_count qd + 1)) mod ?sz, qd_count := qd_count qd + 1\<rparr>"
    by (simp add: q_put_def Let_def nxt)
  show "qd_size (q_put qd e) = qd_size qd" by (simp add: p)
  show "qd_count (q_put qd e) = qd_count qd + 1" by (simp add: p)
  show "q_inv (q_put qd e)"
    using sz room by (simp add: p q_inv_def)
  show "q_elems (q_put qd e) = q_elems qd @ [e]"
  proof (rule nth_equalityI)
    show "length (q_elems (q_put qd e)) = length (q_elems qd @ [e])"
      using sz by (simp add: q_elems_def p nat_add_distrib)
  next
    fix k assume "k < length (q_elems (q_put qd e))"
    then have k: "k < Suc (nat (qd_count qd))" using sz by (simp add: q_elems_def p nat_add_distrib)
    show "q_elems (q_put qd e) ! k = (q_elems qd @ [e]) ! k"
    proof (cases "k = nat (qd_count qd)")
      case True
      then have "(qd_out qd + int k) mod ?sz = ?i" using sz i by simp
      then show ?thesis using True k sz irange
        by (simp add: q_elems_def p nat_add_distrib nth_append)
    next
      case False
      then have kl: "k < nat (qd_count qd)" using k by simp
      have "int k < qd_count qd" using kl by linarith
      then have "(qd_out qd + int k) mod ?sz \<noteq> ?i"
        using mod_shift_inj [of "int k" "qd_count qd" ?sz "qd_out qd"] room i by auto
      moreover have "0 \<le> (qd_out qd + int k) mod ?sz" using sz by simp
      ultimately have "nat ((qd_out qd + int k) mod ?sz) \<noteq> nat ?i" using irange by linarith
      then show ?thesis using kl k sz
        by (simp add: q_elems_def p nat_add_distrib nth_append)
    qed
  qed
qed

lemma q_dequeue_props:
  assumes inv: "q_inv qd" and ne: "0 < qd_count qd" and d: "q_dequeue qd el = (st, x, qd')"
  shows "st" and "x = hd (q_elems qd)" and "q_inv qd'" and "q_elems qd' = tl (q_elems qd)"
    and "qd_size qd' = qd_size qd" and "qd_count qd' = qd_count qd - 1"
proof -
  let ?sz = "qd_size qd"
  let ?o = "qd_out qd"
  have sz: "0 < ?sz" "?sz \<le> INT_MAX" "0 \<le> ?o" "?o < ?sz" "qd_count qd \<le> ?sz"
    "length (qd_buffer qd) = nat ?sz"
    using inv by (simp_all add: q_inv_def)
  have i: "qd_in qd = (?o + qd_count qd) mod ?sz" using inv by (simp add: q_inv_def)
  have nxt: "int_of_long ((?o + 1) smod ?sz) = (?o + 1) mod ?sz"
  proof -
    have e: "(?o + 1) smod ?sz = (?o + 1) mod ?sz" using sz by (simp add: smod_nonneg)
    have "0 \<le> (?o + 1) mod ?sz" "(?o + 1) mod ?sz \<le> INT_MAX"
      using sz by (simp, smt (verit) pos_mod_bound)
    then show ?thesis unfolding e by (rule int_of_long_id)
  qed
  have r: "st = True" "x = qd_buffer qd ! nat ?o"
    "qd' = qd\<lparr>qd_out := (?o + 1) mod ?sz, qd_count := qd_count qd - 1\<rparr>"
    using d ne by (simp_all add: q_dequeue_def Let_def nxt)
  show "st" by (simp add: r)
  show "qd_size qd' = qd_size qd" by (simp add: r)
  show "qd_count qd' = qd_count qd - 1" by (simp add: r)
  have n0: "nat (qd_count qd) = Suc (nat (qd_count qd - 1))" using ne by simp
  show "x = hd (q_elems qd)"
    using sz by (simp add: r q_elems_def n0 upt_conv_Cons del: upt_Suc)
  have "((?o + 1) mod ?sz + (qd_count qd - 1)) mod ?sz = ((?o + 1) + (qd_count qd - 1)) mod ?sz"
    by (rule mod_add_left_eq)
  then have "((?o + 1) mod ?sz + (qd_count qd - 1)) mod ?sz = (?o + qd_count qd) mod ?sz"
    by simp
  then show "q_inv qd'"
    using sz ne i by (simp add: r q_inv_def)
  show "q_elems qd' = tl (q_elems qd)"
  proof (rule nth_equalityI)
    show "length (q_elems qd') = length (tl (q_elems qd))"
      by (simp add: q_elems_def r)
  next
    fix k assume "k < length (q_elems qd')"
    then have k: "k < nat (qd_count qd - 1)" by (simp add: q_elems_def r)
    then have k1: "Suc k < nat (qd_count qd)" by simp
    have "((?o + 1) mod ?sz + int k) mod ?sz = (?o + int (Suc k)) mod ?sz"
      by (simp add: mod_simps algebra_simps)
    then show "q_elems qd' ! k = tl (q_elems qd) ! k"
      using k k1 by (simp add: q_elems_def r nth_tl)
  qed
qed

lemma q_enqueue_props:
  assumes inv: "q_inv qd" and bound: "2 * (qd_count qd + 1) \<le> INT_MAX"
  shows "fst (q_enqueue True qd e) \<and> q_inv (snd (q_enqueue True qd e)) \<and>
    q_elems (snd (q_enqueue True qd e)) = q_elems qd @ [e] \<and>
    qd_count (snd (q_enqueue True qd e)) = qd_count qd + 1 \<and>
    qd_size (snd (q_enqueue True qd e)) =
      (if qd_count qd < qd_size qd then qd_size qd else 2 * qd_size qd)"
proof (cases "qd_count qd < qd_size qd")
  case True
  then show ?thesis
    using q_put_props [OF inv True, of e] by (simp add: q_enqueue_def)
next
  case False
  then have full: "qd_count qd = qd_size qd" using inv by (simp add: q_inv_def)
  then have b: "2 * qd_size qd \<le> INT_MAX" using bound by simp
  note g = q_grow_props [OF inv full b]
  have room: "qd_count (q_grow qd) < qd_size (q_grow qd)"
    using g(3,4) full inv by (simp add: q_inv_def)
  show ?thesis
    using q_put_props [OF g(1) room, of e] g False by (simp add: q_enqueue_def)
qed

lemma q_dequeue_empty: "qd_count qd = 0 \<Longrightarrow> q_dequeue qd el = (False, el, qd)"
  by (simp add: q_dequeue_def)

lemma run_ops_fifo:
  "q_inv qd \<Longrightarrow> 2 * (qd_count qd + int (length ops)) \<le> INT_MAX \<Longrightarrow>
   fifo_ops (q_elems qd) ops = (fst (run_ops qd ops), q_elems (snd (run_ops qd ops))) \<and>
   q_inv (snd (run_ops qd ops))"
proof (induction ops arbitrary: qd)
  case Nil
  then show ?case by simp
next
  case (Cons op ops)
  show ?case
  proof (cases op)
    case (Enqueue e)
    have b: "2 * (qd_count qd + 1) \<le> INT_MAX" using Cons.prems by simp
    note p = q_enqueue_props [OF Cons.prems(1) b, of e]
    obtain qd' where q': "q_enqueue True qd e = (True, qd')"
      using p by (cases "q_enqueue True qd e") auto
    have "2 * (qd_count qd' + int (length ops)) \<le> INT_MAX"
      using p q' Cons.prems by simp
    then have "fifo_ops (q_elems qd') ops = (fst (run_ops qd' ops), q_elems (snd (run_ops qd' ops))) \<and>
      q_inv (snd (run_ops qd' ops))"
      using Cons.IH [of qd'] p q' by simp
    then show ?thesis using Enqueue q' p by (simp add: split_beta)
  next
    case Dequeue
    show ?thesis
    proof (cases "qd_count qd = 0")
      case True
      then have e: "q_elems qd = []" by (simp add: q_elems_def)
      have "2 * (qd_count qd + int (length ops)) \<le> INT_MAX" using Cons.prems by simp
      then show ?thesis
        using Cons.IH [of qd] Cons.prems(1) Dequeue True e by (simp add: q_dequeue_empty split_beta)
    next
      case False
      then have ne: "0 < qd_count qd" using Cons.prems(1) by (simp add: q_inv_def)
      obtain st x qd' where d: "q_dequeue qd None = (st, x, qd')"
        by (cases "q_dequeue qd None") auto
      note p = q_dequeue_props [OF Cons.prems(1) ne d]
      have "q_elems qd \<noteq> []" using ne by (simp add: q_elems_def)
      then have e: "q_elems qd = x # q_elems qd'" using p(2,4) by (cases "q_elems qd") auto
      have "2 * (qd_count qd' + int (length ops)) \<le> INT_MAX" using p(6) Cons.prems by simp
      then have "fifo_ops (q_elems qd') ops = (fst (run_ops qd' ops), q_elems (snd (run_ops qd' ops))) \<and>
        q_inv (snd (run_ops qd' ops))"
        using Cons.IH [of qd'] p(3) by simp
      then show ?thesis using Dequeue d p(1) e by (simp add: split_beta)
    qed
  qed
qed

lemma int_of_long_smod:
  "0 \<le> i \<Longrightarrow> 0 < sz \<Longrightarrow> sz \<le> INT_MAX \<Longrightarrow> int_of_long (i smod sz) = i mod sz"
proof -
  assume a: "0 \<le> i" "0 < sz" "sz \<le> INT_MAX"
  then have "0 \<le> i mod sz" "i mod sz \<le> INT_MAX"
    by (simp, smt (verit) pos_mod_bound)
  then show ?thesis using a by (simp add: smod_nonneg int_of_long_id)
qed

lemmas q_eval = q_enqueue_def q_put_def q_grow_def q_dequeue_def Let_def int_of_long_smod
  int_of_long_id INT_MAX_def eval_nat_numeral

text \<open>
  C3. The array queue is an unbounded FIFO. For every sequence of enqueue and dequeue
  operations, started on any well-formed queue, the statuses and elements the array
  queue returns are those of the list contract \<open>fifo_ops\<close>: every enqueue succeeds and
  appends at the back, and every dequeue returns the element enqueued earliest among
  those still present. The elements held afterwards are those of the contract, in the
  same order, and the queue is well formed again. An enqueue on a full buffer succeeds
  too: the buffer is reallocated at twice its size, and the elements keep their order,
  with the new one at the back. Allocation is taken to succeed, and the number of
  elements to stay within what the \<open>int\<close> fields \<open>in\<close> and \<open>out\<close> can index.
\<close>

theorem arrayqueue_fifo:
  assumes "q_inv qd" and "2 * (qd_count qd + int (length ops)) \<le> INT_MAX"
  shows "fifo_ops (q_elems qd) ops = (fst (run_ops qd ops), q_elems (snd (run_ops qd ops))) \<and>
         q_inv (snd (run_ops qd ops)) \<and>
         (\<forall>e ops'. ops = Enqueue e # ops' \<and> qd_count qd = qd_size qd \<longrightarrow>
            fst (q_enqueue True qd e) \<and>
            qd_size (snd (q_enqueue True qd e)) = 2 * qd_size qd \<and>
            q_elems (snd (q_enqueue True qd e)) = q_elems qd @ [e])"
proof -
  have "fst (q_enqueue True qd e) \<and>
        qd_size (snd (q_enqueue True qd e)) = 2 * qd_size qd \<and>
        q_elems (snd (q_enqueue True qd e)) = q_elems qd @ [e]"
    if "ops = Enqueue e # ops'" and full: "qd_count qd = qd_size qd" for e ops'
  proof -
    have "2 * (qd_count qd + 1) \<le> INT_MAX" using assms(2) that(1) by simp
    then show ?thesis using q_enqueue_props [OF assms(1), of e] full by simp
  qed
  then show ?thesis using run_ops_fifo [OF assms] by blast
qed

text \<open>
  A full queue of capacity 2 whose content wraps around (\<open>out = 1\<close>): the enqueue
  reallocates, and the elements come out in the order 1, 2, 3.
\<close>

theorem arrayqueue_fifo_witness:
  "q_inv \<lparr>qd_count = 2, qd_size = 2, qd_in = 1, qd_out = 1, qd_buffer = [Some 2, Some (1::nat)]\<rparr> \<and>
   2 * (2 + int (length [Enqueue (Some (3::nat)), Dequeue, Dequeue, Dequeue, Dequeue])) \<le> INT_MAX \<and>
   q_elems \<lparr>qd_count = 2, qd_size = 2, qd_in = 1, qd_out = 1, qd_buffer = [Some 2, Some (1::nat)]\<rparr>
     = [Some 1, Some 2] \<and>
   run_ops \<lparr>qd_count = 2, qd_size = 2, qd_in = 1, qd_out = 1, qd_buffer = [Some 2, Some (1::nat)]\<rparr>
       [Enqueue (Some 3), Dequeue, Dequeue, Dequeue, Dequeue] =
      ([Enqueued True, Dequeued True (Some 1), Dequeued True (Some 2), Dequeued True (Some 3),
        Dequeued False None],
       \<lparr>qd_count = 0, qd_size = 4, qd_in = 3, qd_out = 3,
          qd_buffer = [Some 1, Some 2, Some 3, None]\<rparr>) \<and>
   fifo_ops [Some 1, Some 2] [Enqueue (Some (3::nat)), Dequeue, Dequeue, Dequeue, Dequeue] =
      ([Enqueued True, Dequeued True (Some 1), Dequeued True (Some 2), Dequeued True (Some 3),
        Dequeued False None],
       []) \<and>
   q_enqueue True \<lparr>qd_count = 2, qd_size = 2, qd_in = 1, qd_out = 1, qd_buffer = [Some 2, Some (1::nat)]\<rparr>
       (Some 3) =
      (True, \<lparr>qd_count = 3, qd_size = 4, qd_in = 3, qd_out = 0,
               qd_buffer = [Some 1, Some 2, Some 3, None]\<rparr>)"
proof -
  let ?q = "\<lparr>qd_count = 2, qd_size = 2, qd_in = 1, qd_out = 1, qd_buffer = [Some 2, Some (1::nat)]\<rparr>"
  let ?ops = "[Enqueue (Some (3::nat)), Dequeue, Dequeue, Dequeue, Dequeue]"
  let ?rs = "[Enqueued True, Dequeued True (Some (1::nat)), Dequeued True (Some 2),
      Dequeued True (Some 3), Dequeued False None]"
  have i: "q_inv ?q" by (simp add: q_inv_def INT_MAX_def)
  have b: "2 * (qd_count ?q + int (length ?ops)) \<le> INT_MAX" by (simp add: INT_MAX_def)
  have e: "q_elems ?q = [Some 1, Some 2]" by (simp add: q_elems_def upt_rec)
  have r: "run_ops ?q ?ops =
      (?rs, \<lparr>qd_count = 0, qd_size = 4, qd_in = 3, qd_out = 3,
              qd_buffer = [Some 1, Some 2, Some 3, None]\<rparr>)"
    by (simp add: q_eval)
  have g: "q_enqueue True ?q (Some 3) =
      (True, \<lparr>qd_count = 3, qd_size = 4, qd_in = 3, qd_out = 0,
               qd_buffer = [Some 1, Some 2, Some 3, None]\<rparr>)"
    by (simp add: q_eval)
  have f: "fifo_ops (q_elems ?q) ?ops = (fst (run_ops ?q ?ops), q_elems (snd (run_ops ?q ?ops)))"
    using arrayqueue_fifo [OF i b] by (rule conjunct1)
  have f': "fifo_ops [Some 1, Some 2] ?ops = (?rs, [])"
    using f unfolding r e by (simp add: q_elems_def)
  have b': "2 * (2 + int (length ?ops)) \<le> INT_MAX" using b by simp
  show ?thesis
    by (intro conjI) (fact i b' e r f' g)+
qed

section \<open>Properties of the scheduler\<close>

lemma q_enqueue_room:
  assumes "q_inv qd" and "qd_count qd < qd_size qd"
  shows "q_inv (snd (q_enqueue b qd e))" and "q_elems (snd (q_enqueue b qd e)) = q_elems qd @ [e]"
  using q_put_props [OF assms, of e] assms(2) by (simp_all add: q_enqueue_def)

lemma q_elems_length: "q_inv qd \<Longrightarrow> int (length (q_elems qd)) = qd_count qd"
  by (simp add: q_elems_def q_inv_def)

lemma map_Some_the: "None \<notin> set xs \<Longrightarrow> map (Some \<circ> the) xs = xs"
  by (induction xs) auto

lemma q_elems_ready: "sched_inv s \<Longrightarrow> q_elems (queue s) = map Some (ready_pcbs s)"
  by (simp add: sched_inv_def ready_pcbs_def map_Some_the)

lemma sched_iter_step:
  assumes inv: "sched_inv s" and rdy: "ready_pcbs s = c # cs"
    and rq: "run_quantum timer (kernel s) (pid c) = Inr (r, k, hs)"
  shows "\<exists>s'. sched_iter timer q s = Inr s' \<and> sched_inv s' \<and> kernel s' = k \<and>
      ready_pcbs s' = (if r = 0 then cs @ [preempted_v3 q c] else cs) \<and>
      events s' = events s @ [SigCont (pid c), SetITimer timer] @ hs @
                    [WaitPid (pid c) r, (if r = 0 then SigStop (pid c) else Free (pid c))]"
proof -
  have qi: "q_inv (queue s)" using inv by (simp add: sched_inv_def)
  have el: "q_elems (queue s) = Some c # map Some cs"
    using q_elems_ready [OF inv] rdy by simp
  have ne: "0 < qd_count (queue s)"
    using q_elems_length [OF qi] el by simp
  obtain st x qd where d: "q_dequeue (queue s) None = (st, x, qd)"
    by (cases "q_dequeue (queue s) None") auto
  note p = q_dequeue_props [OF qi ne d]
  have x: "x = Some c" using p(2) el by simp
  have eq: "q_elems qd = map Some cs" using p(4) el by simp
  have room: "qd_count qd < qd_size qd"
    using p(5,6) qi by (simp add: q_inv_def)
  show ?thesis
  proof (cases "r = 0")
    case True
    let ?s' = "\<lparr>queue = snd (q_enqueue True qd (Some (preempted_v3 q c))), kernel = k,
        events = (events s @ [SigCont (pid c), SetITimer timer]) @ hs @
                   [WaitPid (pid c) r, SigStop (pid c)]\<rparr>"
    have it: "sched_iter timer q s = Inr ?s'"
      using d x rq True by (simp add: sched_iter_def Let_def)
    note e = q_enqueue_room [OF p(3) room, of True "Some (preempted_v3 q c)"]
    have "sched_inv ?s'" using e eq by (auto simp: sched_inv_def)
    moreover have "ready_pcbs ?s' = cs @ [preempted_v3 q c]"
      using e(2) eq by (simp add: ready_pcbs_def comp_def)
    ultimately show ?thesis using it True by simp
  next
    case False
    let ?s' = "\<lparr>queue = qd, kernel = k,
        events = (events s @ [SigCont (pid c), SetITimer timer]) @ hs @
                   [WaitPid (pid c) r, Free (pid c)]\<rparr>"
    have it: "sched_iter timer q s = Inr ?s'"
      using d x rq False by (simp add: sched_iter_def Let_def)
    have "sched_inv ?s'" using p(3) eq by (auto simp: sched_inv_def)
    moreover have "ready_pcbs ?s' = cs"
      using eq by (simp add: ready_pcbs_def comp_def)
    ultimately show ?thesis using it False by simp
  qed
qed

lemma sched_iter_fails:
  assumes inv: "sched_inv s" and rdy: "ready_pcbs s = c # cs"
    and rq: "run_quantum timer (kernel s) (pid c) = Inl e"
  shows "sched_iter timer q s = Inl (e, events s @ [SigCont (pid c), SetITimer timer])"
proof -
  have qi: "q_inv (queue s)" using inv by (simp add: sched_inv_def)
  have el: "q_elems (queue s) = Some c # map Some cs"
    using q_elems_ready [OF inv] rdy by simp
  have ne: "0 < qd_count (queue s)"
    using q_elems_length [OF qi] el by simp
  obtain st x qd where d: "q_dequeue (queue s) None = (st, x, qd)"
    by (cases "q_dequeue (queue s) None") auto
  note p = q_dequeue_props [OF qi ne d]
  have x: "x = Some c" using p(2) el by simp
  show ?thesis using d x rq by (simp add: sched_iter_def Let_def)
qed

text \<open>
  The loop on the array queue is the round robin on the list of the control blocks in
  the queue: it produces the same events, whether the run ends or fails.
\<close>

lemma sched_loop_refines:
  "sched_inv s \<Longrightarrow> k = kernel s \<Longrightarrow> cs = ready_pcbs s \<Longrightarrow>
   (case sched_loop timer q s of
      Inr s' \<Rightarrow> sched_inv s' \<and> ready_pcbs s' = [] \<and>
                 events s' = events s @ round_robin timer q k cs
    | Inl (e, es) \<Rightarrow> es = events s @ round_robin timer q k cs)"
proof (induction timer q k cs arbitrary: s rule: round_robin.induct)
  case (1 timer q k)
  then have "q_elems (queue s) = []" using q_elems_ready [of s] by simp
  then have "qd_count (queue s) = 0"
    using q_elems_length [of "queue s"] 1(1) by (simp add: sched_inv_def)
  then have "sched_loop timer q s = Inr s"
    by (simp add: sched_loop.simps [of timer q s] q_isEmpty_def)
  then show ?case using 1 by simp
next
  case (2 timer q k c cs)
  have rdy: "ready_pcbs s = c # cs" using 2 by simp
  have "q_elems (queue s) \<noteq> []" using q_elems_ready [OF "2.prems"(1)] rdy by simp
  then have ne: "qd_count (queue s) \<noteq> 0" by (auto simp: q_elems_def)
  show ?case
  proof (cases "run_quantum timer k (pid c)")
    case (Inl e)
    then have "run_quantum timer (kernel s) (pid c) = Inl e" using 2 by simp
    then have "sched_iter timer q s = Inl (e, events s @ [SigCont (pid c), SetITimer timer])"
      by (rule sched_iter_fails [OF "2.prems"(1) rdy])
    then have "sched_loop timer q s = Inl (e, events s @ [SigCont (pid c), SetITimer timer])"
      using ne by (simp add: sched_loop.simps [of timer q s] q_isEmpty_def)
    then show ?thesis using Inl by simp
  next
    case (Inr x)
    obtain r k' hs where x: "x = (r, k', hs)" by (cases x) auto
    have rq: "run_quantum timer k (pid c) = Inr (r, k', hs)" using Inr x by simp
    have rq': "run_quantum timer (kernel s) (pid c) = Inr (r, k', hs)" using rq 2 by simp
    obtain s1 where s1: "sched_iter timer q s = Inr s1" "sched_inv s1" "kernel s1 = k'"
        "ready_pcbs s1 = (if r = 0 then cs @ [preempted_v3 q c] else cs)"
        "events s1 = events s @ [SigCont (pid c), SetITimer timer] @ hs @
                       [WaitPid (pid c) r, (if r = 0 then SigStop (pid c) else Free (pid c))]"
      using sched_iter_step [OF "2.prems"(1) rdy rq', of q] by blast
    have loop: "sched_loop timer q s = sched_loop timer q s1"
      using s1(1) ne by (simp add: sched_loop.simps [of timer q s] q_isEmpty_def)
    show ?thesis
    proof (cases "r = 0")
      case True
      have "case sched_loop timer q s1 of
          Inr s' \<Rightarrow> sched_inv s' \<and> ready_pcbs s' = [] \<and>
            events s' = events s1 @ round_robin timer q k' (cs @ [preempted_v3 q c])
        | Inl (e, es) \<Rightarrow> es = events s1 @ round_robin timer q k' (cs @ [preempted_v3 q c])"
        using "2.IH"(1) [OF rq refl refl True s1(2)] s1(3,4) True by simp
      then show ?thesis using loop s1(5) rq True by (auto split: sum.splits)
    next
      case False
      have "case sched_loop timer q s1 of
          Inr s' \<Rightarrow> sched_inv s' \<and> ready_pcbs s' = [] \<and>
            events s' = events s1 @ round_robin timer q k' cs
        | Inl (e, es) \<Rightarrow> es = events s1 @ round_robin timer q k' cs"
        using "2.IH"(2) [OF rq refl refl False s1(2)] s1(3,4) False by simp
      then show ?thesis using loop s1(5) rq False by (auto split: sum.splits)
    qed
  qed
qed

lemma launch_run:
  "sched_inv s \<Longrightarrow> -1 \<notin> fst ` set cmds \<Longrightarrow> 0 \<notin> fst ` set cmds \<Longrightarrow>
   2 * (qd_count (queue s) + int (length cmds)) \<le> INT_MAX \<Longrightarrow>
   \<exists>s'. launch cmds s = (None, s') \<and> sched_inv s' \<and>
        ready_pcbs s' = ready_pcbs s @ map (\<lambda>cmd. new_pcb (fst cmd)) cmds \<and>
        kernel s' = kernel s @ cmds \<and>
        events s' = events s @ map (\<lambda>cmd. Fork (fst cmd)) cmds"
proof (induction cmds arbitrary: s)
  case Nil
  then show ?case by simp
next
  case (Cons cmd cmds)
  obtain r w where cmd: "cmd = (r, w)" by (cases cmd) auto
  have r: "r \<noteq> -1" "r \<noteq> 0" using Cons.prems cmd by auto
  let ?s1 = "\<lparr>queue = snd (q_enqueue True (queue s) (Some (new_pcb r))),
      kernel = kernel s @ [cmd], events = events s @ [Fork r]\<rparr>"
  have l: "launch (cmd # cmds) s = launch cmds ?s1"
    using r cmd by simp
  have qi: "q_inv (queue s)" using Cons.prems by (simp add: sched_inv_def)
  have b: "2 * (qd_count (queue s) + 1) \<le> INT_MAX" using Cons.prems(4) by simp
  note e = q_enqueue_props [OF qi b, of "Some (new_pcb r)"]
  have inv1: "sched_inv ?s1" using e Cons.prems(1) by (simp add: sched_inv_def)
  have rdy1: "ready_pcbs ?s1 = ready_pcbs s @ [new_pcb r]"
    using e by (simp add: ready_pcbs_def)
  have b1: "2 * (qd_count (queue ?s1) + int (length cmds)) \<le> INT_MAX"
    using e Cons.prems(4) by simp
  have "\<exists>s'. launch cmds ?s1 = (None, s') \<and> sched_inv s' \<and>
        ready_pcbs s' = ready_pcbs ?s1 @ map (\<lambda>cmd. new_pcb (fst cmd)) cmds \<and>
        kernel s' = kernel ?s1 @ cmds \<and>
        events s' = events ?s1 @ map (\<lambda>cmd. Fork (fst cmd)) cmds"
    using Cons.IH [OF inv1 _ _ b1] Cons.prems(2,3) by simp
  then show ?case using l rdy1 cmd by auto
qed

lemma run_quantum_good:
  assumes "p \<in> fst ` set k" and "0 < p"
  shows "\<exists>r k' hs. run_quantum timer k p = Inr (r, k', hs)"
proof -
  obtain w where "map_of k p = Some w"
    using assms(1) by (metis map_of_eq_None_iff not_None_eq)
  then show ?thesis using assms(2) by (simp add: run_quantum_cases)
qed

lemma run_quantum_keys:
  "run_quantum timer k p = Inr (r, k', hs) \<Longrightarrow>
     fst ` set k' = (if r = 0 then fst ` set k else fst ` set k - {p})"
proof -
  have none: "map_of k p = None \<Longrightarrow> fst ` set k - {p} = fst ` set k"
    by (simp add: map_of_eq_None_iff)
  assume "run_quantum timer k p = Inr (r, k', hs)"
  then have "(r = 0 \<and> (\<exists>t. k' = pt_run p t k)) \<or> (r \<noteq> 0 \<and> k' = pt_reap p k) \<or>
      (r \<noteq> 0 \<and> k' = k \<and> map_of k p = None)"
    by (auto simp: run_quantum_cases split: option.splits if_splits)
  then show ?thesis
    using none by (elim disjE conjE exE) (simp_all add: pt_run_keys pt_reap_keys)
qed

lemma run_quantum_hs:
  "run_quantum timer k p = Inr (r, k', hs) \<Longrightarrow> e \<in> set hs \<Longrightarrow> \<exists>x. e = WaitAny x"
  by (auto simp: run_quantum_cases split: option.splits if_splits)

lemma sched_loop_ends:
  "sched_inv s \<Longrightarrow> distinct (map pid (ready_pcbs s)) \<Longrightarrow>
   pid ` set (ready_pcbs s) \<subseteq> fst ` set (kernel s) \<Longrightarrow> \<forall>c \<in> set (ready_pcbs s). 0 < pid c \<Longrightarrow>
   \<exists>s'. sched_loop timer q s = Inr s'"
proof (induction timer q s rule: sched_loop.induct)
  case (1 timer q s)
  show ?case
  proof (cases "q_isEmpty (queue s)")
    case True
    then show ?thesis by (simp add: sched_loop.simps [of timer q s])
  next
    case False
    then have "qd_count (queue s) \<noteq> 0" by (simp add: q_isEmpty_def)
    then have "q_elems (queue s) \<noteq> []"
      using q_elems_length [of "queue s"] "1.prems"(1) by (auto simp: sched_inv_def)
    then obtain c cs where rdy: "ready_pcbs s = c # cs"
      by (cases "ready_pcbs s") (auto simp: ready_pcbs_def)
    have c: "pid c \<in> fst ` set (kernel s)" "0 < pid c" "pid c \<notin> pid ` set cs"
      "distinct (map pid cs)"
      using "1.prems" rdy by auto
    obtain r k' hs where rq: "run_quantum timer (kernel s) (pid c) = Inr (r, k', hs)"
      using run_quantum_good [OF c(1,2)] by blast
    obtain s1 where s1: "sched_iter timer q s = Inr s1" "sched_inv s1" "kernel s1 = k'"
        "ready_pcbs s1 = (if r = 0 then cs @ [preempted_v3 q c] else cs)"
      using sched_iter_step [OF "1.prems"(1) rdy rq, of q] by blast
    note keys = run_quantum_keys [OF rq]
    have d1: "distinct (map pid (ready_pcbs s1))"
      using c s1(4) by (auto simp: preempted_v3_def)
    have sub: "insert (pid c) (pid ` set cs) \<subseteq> fst ` set (kernel s)"
      using "1.prems"(3) rdy by simp
    have sub1: "pid ` set (ready_pcbs s1) \<subseteq> fst ` set (kernel s1)"
    proof (cases "r = 0")
      case True
      then show ?thesis using sub s1(3,4) keys by (simp add: preempted_v3_def)
    next
      case False
      have "pid ` set cs \<subseteq> fst ` set (kernel s) - {pid c}" using sub c(3) by blast
      then show ?thesis using False s1(3,4) keys by simp
    qed
    have pos1: "\<forall>c \<in> set (ready_pcbs s1). 0 < pid c"
      using "1.prems"(4) rdy s1(4) by (auto simp: preempted_v3_def)
    have "\<exists>s'. sched_loop timer q s1 = Inr s'"
      using "1.IH" [OF False s1(1,2) d1 sub1 pos1] .
    then show ?thesis using False s1(1) by (simp add: sched_loop.simps [of timer q s])
  qed
qed

lemma usps_run:
  assumes q: "resolve_quantum qargs QUANT_ENV = Inr q" and fd: "fd \<noteq> -1"
    and pids: "distinct (map fst cmds)" "\<forall>p \<in> fst ` set cmds. 0 < p"
    and n: "2 * int (length cmds) \<le> INT_MAX"
  shows "usps dqc qargs QUANT_ENV fd cmds =
    Exited 0 (map (\<lambda>cmd. Fork (fst cmd)) cmds @
              round_robin (set_up_timer q) q cmds (map (\<lambda>cmd. new_pcb (fst cmd)) cmds))"
proof -
  let ?q0 = "\<lparr>qd_count = 0, qd_size = 128, qd_in = 0, qd_out = 0,
      qd_buffer = replicate (nat 128) (None :: ChildProcess option)\<rparr>"
  let ?s0 = "\<lparr>queue = ?q0, kernel = [], events = []\<rparr>"
  have aq: "ArrayQueue True dqc MAX_PROCESSES = Some ?q0"
    by (simp add: ArrayQueue_def newQueue_def MAX_PROCESSES_def)
  have inv0: "sched_inv ?s0" by (simp add: sched_inv_def q_inv_def q_elems_def INT_MAX_def)
  have r0: "ready_pcbs ?s0 = []" by (simp add: ready_pcbs_def q_elems_def)
  have p1: "-1 \<notin> fst ` set cmds" "0 \<notin> fst ` set cmds" using pids(2) by auto
  obtain s1 where s1: "launch cmds ?s0 = (None, s1)" "sched_inv s1"
      "ready_pcbs s1 = map (\<lambda>cmd. new_pcb (fst cmd)) cmds" "kernel s1 = cmds"
      "events s1 = map (\<lambda>cmd. Fork (fst cmd)) cmds"
    using launch_run [OF inv0 p1] n r0 by auto
  have m: "map pid (ready_pcbs s1) = map fst cmds" by (simp add: s1(3) new_pcb_def comp_def)
  have "distinct (map pid (ready_pcbs s1))" using pids(1) m by simp
  moreover have "pid ` set (ready_pcbs s1) \<subseteq> fst ` set (kernel s1)"
    using m s1(4) by (metis set_map subset_refl)
  moreover have "\<forall>c \<in> set (ready_pcbs s1). 0 < pid c"
    using pids(2) m by (metis imageI set_map)
  ultimately obtain s2 where s2: "sched_loop (set_up_timer q) q s1 = Inr s2"
    using sched_loop_ends [OF s1(2)] by blast
  then have "events s2 = events s1 @ round_robin (set_up_timer q) q (kernel s1) (ready_pcbs s1)"
    using sched_loop_refines [OF s1(2) refl refl, of "set_up_timer q" q] by simp
  then show ?thesis
    using q fd aq s1 s2 by (simp add: usps_def)
qed

lemma int_times_small: "0 \<le> a * b \<Longrightarrow> a * b \<le> INT_MAX \<Longrightarrow> int_times a b = a * b"
  by (simp add: int_times_def INT_MAX_def signed_take_bit_int_eq_self)

lemma sdiv_nonneg: "0 \<le> a \<Longrightarrow> 0 \<le> b \<Longrightarrow> a sdiv b = a div (b::int)"
  by (simp add: signed_divide_int_def sgn_if)

text \<open>
  The timer that \<open>main\<close> sets up is armed for a quantum below one second, and for no
  other quantum up to 2147483 ms.
\<close>

lemma setitimer_below_one_second:
  "0 < q \<Longrightarrow> q < 1000 \<Longrightarrow> setitimer (set_up_timer q) = Some (nat (q * 1000))"
  by (simp add: setitimer_def timeval_ok_def set_up_timer_def int_times_small INT_MAX_def
      Let_def sdiv_nonneg)

lemma setitimer_from_one_second:
  "1000 \<le> q \<Longrightarrow> q \<le> 2147483 \<Longrightarrow> setitimer (set_up_timer q) = None"
  by (simp add: setitimer_def timeval_ok_def set_up_timer_def int_times_small INT_MAX_def
      Let_def)

lemma setitimer_0: "setitimer (set_up_timer 0) = None"
  by (simp add: setitimer_def timeval_ok_def set_up_timer_def int_times_small INT_MAX_def
      Let_def sdiv_nonneg)

lemma setitimer_500: "setitimer (set_up_timer 500) = Some 500000"
  using setitimer_below_one_second [of 500] by simp

lemma setitimer_1000: "setitimer (set_up_timer 1000) = None"
  using setitimer_from_one_second [of 1000] by simp

lemmas rr_eval = run_quantum_cases setitimer_0 setitimer_500 setitimer_1000 pt_run_def pt_reap_def
  new_pcb_def preempted_v3_def

lemma pid_preempted [simp]: "pid (preempted_v3 q c) = pid c"
  by (simp add: preempted_v3_def)

subsection \<open>The invariant of the scheduling loop\<close>

lemma resumed_append: "resumed (es @ es') = foldl resumed_step (resumed es) es'"
  by (simp add: resumed_def)

lemma resumed_take_append:
  assumes "resumed es = []" and "\<forall>n. length (resumed (take n es)) \<le> 1"
    and "\<forall>m. length (foldl resumed_step [] (take m es')) \<le> 1"
  shows "length (resumed (take n (es @ es'))) \<le> 1"
proof (cases "n \<le> length es")
  case True
  then show ?thesis using assms(2) by simp
next
  case False
  then have "take n (es @ es') = es @ take (n - length es) es'" by simp
  then show ?thesis using assms(1,3) by (simp add: resumed_append)
qed

lemma foldl_handler_calls:
  "\<forall>e \<in> set hs. \<exists>x. e = WaitAny x \<Longrightarrow> foldl resumed_step ps hs = ps"
  by (induction hs arbitrary: ps) auto

lemma quantum_events_resumed:
  assumes hs: "\<forall>e \<in> set hs. \<exists>x. e = WaitAny x" and x: "x = SigStop p \<or> x = Free p"
  shows "length (foldl resumed_step [] (take m ([SigCont p, SetITimer t] @ hs @ [WaitPid p r, x]))) \<le> 1"
    and "foldl resumed_step [] ([SigCont p, SetITimer t] @ hs @ [WaitPid p r, x]) = []"
proof -
  have t: "\<forall>e \<in> set (take n hs). \<exists>x. e = WaitAny x" for n
    using hs by (meson in_set_takeD)
  have f: "foldl resumed_step [p] (take n hs) = [p]" for n
    by (rule foldl_handler_calls [OF t])
  have g: "length (foldl resumed_step [p] (take n [WaitPid p r, x])) \<le> 1" for n
    using x by (auto simp: take_Cons')
  have h: "length (foldl resumed_step [p] (take n (hs @ [WaitPid p r, x]))) \<le> 1" for n
    using g [of "n - length hs"] by (simp add: f)
  show "length (foldl resumed_step [] (take m ([SigCont p, SetITimer t] @ hs @ [WaitPid p r, x]))) \<le> 1"
  proof (cases m)
    case 0
    then show ?thesis by simp
  next
    case (Suc m1)
    show ?thesis
    proof (cases m1)
      case 0
      then show ?thesis using Suc by simp
    next
      case (Suc m2)
      then show ?thesis using \<open>m = Suc m1\<close> h [of m2] by simp
    qed
  qed
  show "foldl resumed_step [] ([SigCont p, SetITimer t] @ hs @ [WaitPid p r, x]) = []"
    using x by (auto simp: foldl_handler_calls [OF hs])
qed

lemma live_quantum:
  assumes hs: "\<forall>e \<in> set hs. \<exists>x. e = WaitAny x"
  shows "live (es @ [SigCont p, SetITimer t] @ hs @ [WaitPid p r, SigStop p]) = live es"
    and "live (es @ [SigCont p, SetITimer t] @ hs @ [WaitPid p r, Free p]) = live es - {p}"
  using hs by (auto simp: live_def)

lemma sched_ok_step:
  assumes ok: "sched_ok s" and st: "sched_step timer q s s'"
  shows "sched_ok s'"
proof -
  have inv: "sched_inv s" using ok by (simp add: sched_ok_def)
  have "qd_count (queue s) \<noteq> 0" using st by (simp add: sched_step_def q_isEmpty_def)
  then have "q_elems (queue s) \<noteq> []"
    using q_elems_length [of "queue s"] inv by (auto simp: sched_inv_def)
  then obtain c cs where rdy: "ready_pcbs s = c # cs"
    by (cases "ready_pcbs s") (auto simp: ready_pcbs_def)
  have it: "sched_iter timer q s = Inr s'" using st by (simp add: sched_step_def)
  obtain r k hs where rq: "run_quantum timer (kernel s) (pid c) = Inr (r, k, hs)"
  proof (cases "run_quantum timer (kernel s) (pid c)")
    case (Inl e)
    then show ?thesis using sched_iter_fails [OF inv rdy Inl, of q] it by simp
  next
    case (Inr x)
    then show ?thesis using that by (cases x) auto
  qed
  have hs: "\<forall>e \<in> set hs. \<exists>x. e = WaitAny x" using run_quantum_hs [OF rq] by blast
  have s': "sched_inv s'" "ready_pcbs s' = (if r = 0 then cs @ [preempted_v3 q c] else cs)"
    "events s' = events s @ [SigCont (pid c), SetITimer timer] @ hs @
                   [WaitPid (pid c) r, (if r = 0 then SigStop (pid c) else Free (pid c))]"
    "kernel s' = k"
    using sched_iter_step [OF inv rdy rq, of q] it by auto
  have d: "distinct (pid c # map pid cs)" "insert (pid c) (pid ` set cs) = live (events s)"
    "resumed (events s) = []" "\<forall>n. length (resumed (take n (events s))) \<le> 1"
    "\<not> running c" "\<not> finished c" "\<forall>c \<in> set cs. \<not> running c \<and> \<not> finished c"
    "fst ` set (kernel s) = insert (pid c) (pid ` set cs)"
    using ok rdy by (simp_all add: sched_ok_def ready_def)
  note keys = run_quantum_keys [OF rq]
  show ?thesis
  proof (cases "r = 0")
    case True
    note qe = quantum_events_resumed [OF hs, where x = "SigStop (pid c)" and p = "pid c"
        and t = timer and r = r]
    have "\<forall>n. length (resumed (take n (events s'))) \<le> 1"
      using resumed_take_append [OF d(3,4)] qe(1) s'(3) True by simp
    moreover have "resumed (events s') = []"
      using d(3) s'(3) True qe(2) by (simp add: resumed_append)
    moreover have "set (ready s') = live (events s')"
      using d(2) s'(2,3) True live_quantum(1) [OF hs] by (auto simp: ready_def)
    moreover have "distinct (ready s')" using d(1) s'(2) True by (auto simp: ready_def)
    moreover have "\<forall>c \<in> set (ready_pcbs s'). \<not> running c \<and> \<not> finished c"
      using d(5,6,7) s'(2) True by (auto simp: preempted_v3_def)
    moreover have "fst ` set (kernel s') = set (ready s')"
      using keys d(8) s'(2,4) True by (auto simp: ready_def)
    ultimately show ?thesis using s'(1) by (simp add: sched_ok_def)
  next
    case False
    note qe = quantum_events_resumed [OF hs, where x = "Free (pid c)" and p = "pid c"
        and t = timer and r = r]
    have "\<forall>n. length (resumed (take n (events s'))) \<le> 1"
      using resumed_take_append [OF d(3,4)] qe(1) s'(3) False by simp
    moreover have "resumed (events s') = []"
      using d(3) s'(3) False qe(2) by (simp add: resumed_append)
    moreover have "set (ready s') = live (events s')"
    proof -
      have "pid c \<notin> pid ` set cs" using d(1) by simp
      then have "pid ` set cs = live (events s) - {pid c}" using d(2) by blast
      then show ?thesis using s'(2,3) False live_quantum(2) [OF hs] by (simp add: ready_def)
    qed
    moreover have "distinct (ready s')" using d(1) s'(2) False by (auto simp: ready_def)
    moreover have "\<forall>c \<in> set (ready_pcbs s'). \<not> running c \<and> \<not> finished c"
      using d(7) s'(2) False by auto
    moreover have "fst ` set (kernel s') = set (ready s')"
    proof -
      have "pid c \<notin> pid ` set cs" using d(1) by simp
      then have "insert (pid c) (pid ` set cs) - {pid c} = pid ` set cs" by blast
      then show ?thesis using keys d(8) s'(2,4) False by (simp add: ready_def)
    qed
    ultimately show ?thesis using s'(1) by (simp add: sched_ok_def)
  qed
qed

lemma sched_ok_reach:
  "(sched_step timer q)\<^sup>*\<^sup>* s0 s \<Longrightarrow> sched_ok s0 \<Longrightarrow> sched_ok s"
  by (induction rule: rtranclp_induct) (auto intro: sched_ok_step)

lemma resumed_forks: "resumed (map (\<lambda>cmd. Fork (fst cmd)) cmds) = []"
proof -
  have "foldl resumed_step ps (map (\<lambda>cmd. Fork (fst cmd)) cmds) = ps" for ps
    by (induction cmds) auto
  then show ?thesis by (simp add: resumed_def)
qed

lemma launch_ok:
  assumes "distinct (map fst cmds)" and "-1 \<notin> fst ` set cmds" and "0 \<notin> fst ` set cmds"
    and "2 * int (length cmds) \<le> INT_MAX"
    and "ArrayQueue True dqc MAX_PROCESSES = Some q0"
    and "launch cmds \<lparr>queue = q0, kernel = [], events = []\<rparr> = (e, s0)"
  shows "e = None \<and> sched_ok s0 \<and>
         ready_pcbs s0 = map (\<lambda>cmd. new_pcb (fst cmd)) cmds \<and> kernel s0 = cmds \<and>
         events s0 = map (\<lambda>cmd. Fork (fst cmd)) cmds"
proof -
  let ?s = "\<lparr>queue = q0, kernel = [], events = []\<rparr>"
  have q0: "q0 = \<lparr>qd_count = 0, qd_size = 128, qd_in = 0, qd_out = 0,
      qd_buffer = replicate (nat 128) None\<rparr>"
    using assms(5) by (simp add: ArrayQueue_def newQueue_def MAX_PROCESSES_def)
  have inv: "sched_inv ?s" by (simp add: q0 sched_inv_def q_inv_def q_elems_def INT_MAX_def)
  have r0: "ready_pcbs ?s = []" by (simp add: q0 ready_pcbs_def q_elems_def)
  have c0: "qd_count (queue ?s) = 0" by (simp add: q0)
  have s0: "e = None" "sched_inv s0" "ready_pcbs s0 = map (\<lambda>cmd. new_pcb (fst cmd)) cmds"
    "events s0 = map (\<lambda>cmd. Fork (fst cmd)) cmds" "kernel s0 = cmds"
    using launch_run [OF inv assms(2,3)] assms(4,6) r0 c0 by auto
  have "ready s0 = map fst cmds" by (simp add: ready_def s0(3) new_pcb_def comp_def)
  moreover have "live (events s0) = fst ` set cmds" by (auto simp: live_def s0(4))
  moreover have "resumed (take n (events s0)) = []" for n
    using resumed_forks [of "take n cmds"] by (simp add: s0(4) take_map)
  moreover have "resumed (events s0) = []" using resumed_forks by (simp add: s0(4))
  moreover have "\<forall>c \<in> set (ready_pcbs s0). \<not> running c \<and> \<not> finished c"
    by (auto simp: s0(3) new_pcb_def)
  ultimately have "sched_ok s0" using s0(2,5) assms(1) by (simp add: sched_ok_def)
  then show ?thesis using s0 by simp
qed

lemma sched_loop_reach:
  "sched_loop timer q s = Inr s' \<Longrightarrow> (sched_step timer q)\<^sup>*\<^sup>* s s' \<and> q_isEmpty (queue s')"
proof (induction timer q s rule: sched_loop.induct)
  case (1 timer q s)
  show ?case
  proof (cases "q_isEmpty (queue s)")
    case True
    then have "s' = s" using "1.prems" by (simp add: sched_loop.simps [of timer q s])
    then show ?thesis using True by simp
  next
    case False
    then obtain s1 where it: "sched_iter timer q s = Inr s1"
      using "1.prems" by (cases "sched_iter timer q s") (auto simp: sched_loop.simps [of timer q s])
    then have l: "sched_loop timer q s1 = Inr s'"
      using "1.prems" False by (simp add: sched_loop.simps [of timer q s])
    have "sched_step timer q s s1" using False it by (simp add: sched_step_def)
    then show ?thesis
      using "1.IH" [OF False it l] by (auto intro: converse_rtranclp_into_rtranclp)
  qed
qed

subsection \<open>The quantum\<close>

lemma getopt_loop_last: "getopt_loop (qargs @ [v]) q = v"
  by (induction qargs arbitrary: q) simp_all

text \<open>
  C1. Precedence of the quantum. A \<open>-q\<close> override with a non-negative value \<open>v\<close> (the
  last \<open>-q\<close> on the command line) is the effective quantum, whatever the environment
  holds. With no override and \<open>USPS_QUANTUM_MSEC\<close> set to a value \<open>f\<close>, the effective
  quantum is \<open>f\<close>; quantum values are non-negative, and the guard at line 71 turns a
  negative one into the error of C2. With neither, \<open>main\<close> returns \<open>EXIT_FAILURE\<close>
  and the run has no event: no process was launched.
\<close>

theorem quantum_precedence:
  "(0 \<le> v \<longrightarrow> resolve_quantum (qargs @ [v]) QUANT_ENV = Inr v) \<and>
   (0 \<le> f \<longrightarrow> resolve_quantum [] (Some f) = Inr f) \<and>
   resolve_quantum [] None = Inl NoEnvironmentVariable \<and>
   usps dqc [] None fd cmds = Exited EXIT_FAILURE []"
  by (simp add: resolve_quantum_def getopt_loop_last usps_def split: option.splits)

theorem quantum_precedence_witness:
  "(0::int) \<le> 500 \<and> resolve_quantum [500] (Some 200) = Inr 500 \<and>
   (0::int) \<le> 200 \<and> resolve_quantum [] (Some 200) = Inr 200 \<and>
   resolve_quantum [] None = Inl NoEnvironmentVariable \<and>
   usps 50 [] None 0 [(101, 1)] = Exited EXIT_FAILURE []"
  using quantum_precedence [of 500 "[]" "Some 200" 200 50 0 "[(101, 1)]"] by simp

text \<open>
  C2 says that every quantum \<open>q \<le> 0\<close>, zero included, is a fatal configuration error
  before any fork. The guards of \<open>main\<close> test \<open>QUANT_SECONDS < 0\<close>, the value that stands
  for "not given": an override of \<open>0\<close> is accepted, the child is forked and the run
  ends with status \<open>0\<close>. (A timer of zero is never armed: the child runs until it
  exits, \<open>sigchld_handler\<close> takes its status, and \<open>main\<close> frees its control block.)
\<close>

theorem zero_quantum_counterexample:
  "resolve_quantum [0] None = Inr 0 \<and>
   usps 50 [0] None 0 [(101, 1)] =
     Exited 0 [Fork 101, SigCont 101, SetITimer (set_up_timer 0), WaitAny 101, WaitAny (-1),
               WaitPid 101 (-1), Free 101]"
proof -
  have r: "resolve_quantum [0] None = Inr 0" by (simp add: resolve_quantum_def)
  have "usps 50 [0] None 0 [(101, 1)] =
    Exited 0 (map (\<lambda>cmd. Fork (fst cmd)) [(101, 1)] @
      round_robin (set_up_timer 0) 0 [(101, 1)] (map (\<lambda>cmd. new_pcb (fst cmd)) [(101, 1)]))"
    using usps_run [OF r, of 0 "[(101, 1)]" 50] by (simp add: INT_MAX_def)
  then show ?thesis using r by (simp add: rr_eval)
qed

text \<open>
  C2 as amended. A negative quantum is fatal before any fork wherever resolution ends
  with it: a negative override \<open>v\<close> with the fallback unset, and a negative fallback \<open>f\<close>
  when the override is absent or negative itself. A quantum of \<open>0\<close> is accepted, from
  the override and from the fallback.
\<close>

theorem negative_quantum_is_fatal:
  "(v < 0 \<longrightarrow> usps dqc (qargs @ [v]) None fd cmds = Exited EXIT_FAILURE []) \<and>
   (f < 0 \<and> getopt_loop qargs (-1) < 0 \<longrightarrow>
      usps dqc qargs (Some f) fd cmds = Exited EXIT_FAILURE []) \<and>
   resolve_quantum (qargs @ [0]) QUANT_ENV = Inr 0 \<and>
   (getopt_loop qargs (-1) < 0 \<longrightarrow> resolve_quantum qargs (Some 0) = Inr 0)"
  by (simp add: resolve_quantum_def getopt_loop_last usps_def split: option.splits)

theorem negative_quantum_is_fatal_witness:
  "(-5::int) < 0 \<and> usps 50 [-5] None 0 [(101, 1)] = Exited EXIT_FAILURE [] \<and>
   (-7::int) < 0 \<and> getopt_loop [] (-1) < 0 \<and>
   usps 50 [] (Some (-7)) 0 [(101, 1)] = Exited EXIT_FAILURE [] \<and>
   resolve_quantum [0] (Some 200) = Inr 0 \<and>
   resolve_quantum [] (Some 0) = Inr 0"
  using negative_quantum_is_fatal [of "-5" 50 "[]" 0 "[(101, 1)]" "-7" "Some 200"] by simp

subsection \<open>The timer\<close>

text \<open>
  C4 says that the timer armed for a quantum of \<open>q\<close> ms expires after \<open>q\<close> ms:
  \<open>tv_sec * 1000000 + tv_usec = q * 1000\<close> with \<open>tv_usec < 1000000\<close>. The code sets
  \<open>tv_usec\<close> to the whole quantum in microseconds, not to what is left of it after the
  seconds: at \<open>q = 1000\<close> the timer holds 1 s and 1000000 us, twice the quantum and no
  valid \<open>timeval\<close>.
\<close>

theorem timer_at_one_second:
  "set_up_timer 1000 =
     \<lparr>it_interval = \<lparr>tv_sec = 1, tv_usec = 1000000\<rparr>, it_value = \<lparr>tv_sec = 1, tv_usec = 1000000\<rparr>\<rparr> \<and>
   tv_sec (it_value (set_up_timer 1000)) * 1000000 + tv_usec (it_value (set_up_timer 1000)) = 2000000 \<and>
   1000000 \<le> tv_usec (it_value (set_up_timer 1000))"
  by (simp add: set_up_timer_def Let_def sdiv_nonneg int_times_small INT_MAX_def)

text \<open>
  Below one second the two fields are what C4 says.
\<close>

lemma timer_below_one_second:
  "0 < q \<Longrightarrow> q < 1000 \<Longrightarrow>
     tv_sec (it_value (set_up_timer q)) * 1000000 + tv_usec (it_value (set_up_timer q)) = q * 1000 \<and>
     tv_usec (it_value (set_up_timer q)) < 1000000"
  by (simp add: set_up_timer_def Let_def sdiv_nonneg int_times_small INT_MAX_def)

subsection \<open>Preemption\<close>

text \<open>
  C5 says that a control block preempted at the end of its quantum has its
  \<open>totalCPUTime\<close> incremented by the quantum. uspsv3.c adds \<open>QUANT_SECONDS/1000\<close>, an
  integer division: with a quantum of 500 ms the child 101, which runs for 600 ms, is
  suspended and put back at the end of the queue with a \<open>totalCPUTime\<close> of \<open>0\<close>.
  uspsv4.c puts the block back as it was.
\<close>

theorem preempted_at_500ms:
  "sched_iter (set_up_timer 500) 500
     \<lparr>queue = \<lparr>qd_count = 1, qd_size = 2, qd_in = 1, qd_out = 0,
                qd_buffer = [Some (new_pcb 101), None]\<rparr>,
      kernel = [(101, 600000)], events = [Fork 101]\<rparr> =
   Inr \<lparr>queue = \<lparr>qd_count = 1, qd_size = 2, qd_in = 0, qd_out = 1,
                   qd_buffer = [Some (new_pcb 101),
                     Some \<lparr>pid = 101, totalCPUTime = 0, running = False, finished = False\<rparr>]\<rparr>,
        kernel = [(101, 100000)],
        events = [Fork 101, SigCont 101, SetITimer (set_up_timer 500), WaitPid 101 0, SigStop 101]\<rparr> \<and>
   preempted_v4 500 (new_pcb 101) = \<lparr>pid = 101, totalCPUTime = 0, running = False, finished = False\<rparr>"
  by (simp add: sched_iter_def q_dequeue_def q_enqueue_def q_put_def Let_def int_of_long_smod
      int_of_long_id INT_MAX_def rr_eval sdiv_nonneg preempted_v4_def)

subsection \<open>Round robin\<close>

lemma dispatches_forks: "dispatches (map (\<lambda>cmd. Fork (fst cmd)) cmds @ es) = dispatches es"
  by (induction cmds) simp_all

text \<open>
  C6 says that for every quantum two processes that need three quanta each are
  dispatched in the order \<open>A, B, A, B, A, B\<close>. With a quantum of 1000 ms and two commands
  that run for three seconds each, the timer that \<open>main\<close> sets up holds 1 s and
  1000000 us: \<open>setitimer\<close> arms nothing, no \<open>SIGALRM\<close> ever ends a wait, and each child
  runs from its first \<open>SIGCONT\<close> until it exits. The dispatch order is \<open>A, B\<close>: the
  second process waits for all three quanta of the first.
\<close>

theorem round_robin_at_one_second:
  "setitimer (set_up_timer 1000) = None \<and>
   usps 50 [1000] None 0 [(101, 3000000), (102, 3000000)] =
     Exited 0 [Fork 101, Fork 102,
       SigCont 101, SetITimer (set_up_timer 1000), WaitAny 101, WaitAny 0, WaitPid 101 (-1), Free 101,
       SigCont 102, SetITimer (set_up_timer 1000), WaitAny 102, WaitAny (-1), WaitPid 102 (-1),
       Free 102] \<and>
   dispatches [Fork 101, Fork 102,
       SigCont 101, SetITimer (set_up_timer 1000), WaitAny 101, WaitAny 0, WaitPid 101 (-1), Free 101,
       SigCont 102, SetITimer (set_up_timer 1000), WaitAny 102, WaitAny (-1), WaitPid 102 (-1),
       Free 102] = [101, 102]"
proof -
  have r: "resolve_quantum [1000] None = Inr 1000" by (simp add: resolve_quantum_def)
  have "usps 50 [1000] None 0 [(101, 3000000), (102, 3000000)] =
    Exited 0 (map (\<lambda>cmd. Fork (fst cmd)) [(101, 3000000), (102, 3000000)] @
      round_robin (set_up_timer 1000) 1000 [(101, 3000000), (102, 3000000)]
        (map (\<lambda>cmd. new_pcb (fst cmd)) [(101, 3000000), (102, 3000000)]))"
    using usps_run [OF r, of 0 "[(101, 3000000), (102, 3000000)]" 50] by (simp add: INT_MAX_def)
  then show ?thesis by (simp add: rr_eval)
qed

text \<open>
  What does hold of the dispatch order, for every quantum: a process is resumed again
  only when every process that is still unfinished has been resumed since.
\<close>

lemma rr_Cons_ok:
  "run_quantum timer k (pid c) = Inr (r, k', hs) \<Longrightarrow>
   round_robin timer q k (c # cs) =
     SigCont (pid c) #
     (SetITimer timer # hs @ [WaitPid (pid c) r, (if r = 0 then SigStop (pid c) else Free (pid c))]) @
     (if r = 0 then round_robin timer q k' (cs @ [preempted_v3 q c]) else round_robin timer q k' cs)"
  by simp

lemma rr_Cons_fails:
  "run_quantum timer k (pid c) = Inl e \<Longrightarrow>
   round_robin timer q k (c # cs) = [SigCont (pid c), SetITimer timer]"
  by simp

lemma head_nth:
  assumes T: "\<forall>e \<in> set T. \<forall>x. e \<noteq> SigCont x"
    and j: "j < length (SigCont c # T @ R)" and e: "(SigCont c # T @ R) ! j = SigCont p"
  shows "(j = 0 \<and> p = c) \<or> (\<exists>j'. j = Suc (length T + j') \<and> j' < length R \<and> R ! j' = SigCont p)"
proof (cases j)
  case 0
  then show ?thesis using e by simp
next
  case (Suc n)
  show ?thesis
  proof (cases "n < length T")
    case True
    then have "T ! n = SigCont p" using e Suc by (simp add: nth_append)
    then show ?thesis using T True by (metis nth_mem)
  next
    case False
    then have "R ! (n - length T) = SigCont p" "n - length T < length R"
      using e j Suc by (auto simp: nth_append)
    then show ?thesis using Suc False by (intro disjI2 exI [of _ "n - length T"]) simp
  qed
qed

lemma fair_from_head:
  assumes T: "\<forall>e \<in> set T. \<forall>x. e \<noteq> SigCont x"
    and IH: "fair_from (L - {y. Free y \<in> set T}) R"
    and first: "\<And>j x. j < length R \<Longrightarrow> R ! j = SigCont c \<Longrightarrow>
        x \<in> L - {y. Free y \<in> set T} \<Longrightarrow> x = c \<or> SigCont x \<in> set (take j R)"
  shows "fair_from L (SigCont c # T @ R)"
  unfolding fair_from_def
proof (intro allI impI ballI)
  fix j i p x
  let ?es = "SigCont c # T @ R"
  assume j: "j < length ?es" and i: "i < j" and e: "?es ! i = SigCont p \<and> ?es ! j = SigCont p"
    and x: "x \<in> L - {y. Free y \<in> set (take j ?es)}"
  have "j \<noteq> 0" using i by simp
  then obtain j' where j': "j = Suc (length T + j')" "j' < length R" "R ! j' = SigCont p"
    using head_nth [OF T j] e by blast
  have tk: "take j ?es = SigCont c # T @ take j' R" using j' by simp
  have xL: "x \<in> L - {y. Free y \<in> set T}" "Free x \<notin> set (take j' R)"
    using x tk by auto
  have il: "i < length ?es" using i j by simp
  consider "i = 0" "p = c" | i' where "i = Suc (length T + i')" "i' < length R" "R ! i' = SigCont p"
    using head_nth [OF T il] e by blast
  then show "SigCont x \<in> set (take (j - i) (drop i ?es))"
  proof cases
    case 1
    then have "x = c \<or> SigCont x \<in> set (take j' R)" using first [OF j'(2) _ xL(1)] j'(3) by simp
    then show ?thesis using 1 tk by auto
  next
    case 2
    then have lt: "i' < j'" using i j' by simp
    have "x \<in> (L - {y. Free y \<in> set T}) - {y. Free y \<in> set (take j' R)}" using xL by simp
    then have "SigCont x \<in> set (take (j' - i') (drop i' R))"
      using IH j'(2,3) lt 2(3) by (simp add: fair_from_def)
    moreover have "take (j - i) (drop i ?es) = take (j' - i') (drop i' R)"
      using 2(1) j'(1) by simp
    ultimately show ?thesis by simp
  qed
qed

lemma quantum_events_quiet:
  assumes "run_quantum timer k p = Inr (r, k', hs)"
  shows "\<forall>e \<in> set (SetITimer timer # hs @ [WaitPid p r, (if r = 0 then SigStop p else Free p)]).
           \<forall>x. e \<noteq> SigCont x"
    and "{y. Free y \<in> set (SetITimer timer # hs @ [WaitPid p r, (if r = 0 then SigStop p else Free p)])}
           = (if r = 0 then {} else {p})"
    and "\<forall>x. Fork x \<notin> set (SetITimer timer # hs @ [WaitPid p r, (if r = 0 then SigStop p else Free p)])"
  using run_quantum_hs [OF assms] by auto

lemma rr_conts_subset: "SigCont x \<in> set (round_robin t q k cs) \<Longrightarrow> x \<in> pid ` set cs"
proof (induction t q k cs rule: round_robin.induct)
  case (1 timer q k)
  then show ?case by simp
next
  case (2 timer q k c cs)
  show ?case
  proof (cases "run_quantum timer k (pid c)")
    case (Inl e)
    then show ?thesis using "2.prems" by (simp add: rr_Cons_fails del: round_robin.simps(2))
  next
    case (Inr y)
    obtain r k' hs where y: "y = (r, k', hs)" by (cases y) auto
    have rq: "run_quantum timer k (pid c) = Inr (r, k', hs)" using Inr y by simp
    note qe = quantum_events_quiet [OF rq]
    show ?thesis
    proof (cases "r = 0")
      case True
      then have "x = pid c \<or> SigCont x \<in> set (round_robin timer q k' (cs @ [preempted_v3 q c]))"
        using "2.prems" qe(1) True unfolding rr_Cons_ok [OF rq] by auto
      then show ?thesis using "2.IH"(1) [OF rq refl refl True] by auto
    next
      case False
      then have "x = pid c \<or> SigCont x \<in> set (round_robin timer q k' cs)"
        using "2.prems" qe(1) False unfolding rr_Cons_ok [OF rq] by auto
      then show ?thesis using "2.IH"(2) [OF rq refl refl False] by auto
    qed
  qed
qed

lemma rr_no_fork: "Fork x \<notin> set (round_robin t q k cs)"
proof (induction t q k cs rule: round_robin.induct)
  case (1 timer q k)
  then show ?case by simp
next
  case (2 timer q k c cs)
  show ?case
  proof (cases "run_quantum timer k (pid c)")
    case (Inl e)
    then show ?thesis by (simp add: rr_Cons_fails del: round_robin.simps(2))
  next
    case (Inr y)
    obtain r k' hs where y: "y = (r, k', hs)" by (cases y) auto
    have rq: "run_quantum timer k (pid c) = Inr (r, k', hs)" using Inr y by simp
    note qe = quantum_events_quiet [OF rq]
    show ?thesis
    proof (cases "r = 0")
      case True
      then show ?thesis
        using "2.IH"(1) [OF rq refl refl True] qe(3) unfolding rr_Cons_ok [OF rq] by auto
    next
      case False
      then show ?thesis
        using "2.IH"(2) [OF rq refl refl False] qe(3) unfolding rr_Cons_ok [OF rq] by auto
    qed
  qed
qed

text \<open>
  In the round robin on \<open>as @ b # bs\<close>, every control block of \<open>as\<close> is dispatched before \<open>b\<close> is.
\<close>

lemma rr_before:
  "distinct (map pid (as @ b # bs)) \<Longrightarrow> j < length (round_robin t q k (as @ b # bs)) \<Longrightarrow>
   round_robin t q k (as @ b # bs) ! j = SigCont (pid b) \<Longrightarrow> a \<in> set as \<Longrightarrow>
   SigCont (pid a) \<in> set (take j (round_robin t q k (as @ b # bs)))"
proof (induction as arbitrary: k bs j)
  case Nil
  then show ?case by simp
next
  case (Cons a0 as)
  have ne: "pid b \<noteq> pid a0" using Cons.prems(1) by auto
  show ?case
  proof (cases "run_quantum t k (pid a0)")
    case (Inl e)
    have R: "round_robin t q k ((a0 # as) @ b # bs) = [SigCont (pid a0), SetITimer t]"
      using rr_Cons_fails [OF Inl] by simp
    have "j < 2" using Cons.prems(2) unfolding R by simp
    then have "j = 0 \<or> j = 1" by auto
    then show ?thesis using Cons.prems(3) ne unfolding R by auto
  next
    case (Inr y)
    obtain r k' hs where y: "y = (r, k', hs)" by (cases y) auto
    have rq: "run_quantum t k (pid a0) = Inr (r, k', hs)" using Inr y by simp
    note qe = quantum_events_quiet [OF rq]
    let ?T = "SetITimer t # hs @ [WaitPid (pid a0) r, (if r = 0 then SigStop (pid a0) else Free (pid a0))]"
    let ?bs = "if r = 0 then bs @ [preempted_v3 q a0] else bs"
    let ?R' = "round_robin t q k' (as @ b # ?bs)"
    have R: "round_robin t q k ((a0 # as) @ b # bs) = SigCont (pid a0) # ?T @ ?R'"
      using rr_Cons_ok [OF rq, of q "as @ b # bs"] by simp
    obtain j' where j': "j = Suc (length ?T + j')" "j' < length ?R'" "?R' ! j' = SigCont (pid b)"
      using head_nth [OF qe(1), of j "pid a0" ?R' "pid b"] Cons.prems(2,3) ne unfolding R by auto
    have d: "distinct (map pid (as @ b # ?bs))" using Cons.prems(1) by auto
    have tk: "take j (SigCont (pid a0) # ?T @ ?R') = SigCont (pid a0) # ?T @ take j' ?R'"
      using j'(1) by simp
    show ?thesis
    proof (cases "a = a0")
      case True
      then show ?thesis unfolding R tk by simp
    next
      case False
      then have "a \<in> set as" using Cons.prems(4) by simp
      then have "SigCont (pid a) \<in> set (take j' ?R')"
        using Cons.IH [OF d j'(2,3)] by simp
      then show ?thesis unfolding R tk by simp
    qed
  qed
qed

lemma fair_from_pair: "fair_from L [SigCont c, SetITimer t]"
proof -
  have "j < 2 \<Longrightarrow> i < j \<Longrightarrow> [SigCont c, SetITimer t] ! j \<noteq> SigCont p" for i j p
    by (cases j) auto
  then show ?thesis by (auto simp: fair_from_def)
qed

lemma rr_fair:
  "distinct (map pid cs) \<Longrightarrow> fair_from (pid ` set cs) (round_robin t q k cs)"
proof (induction t q k cs rule: round_robin.induct)
  case (1 timer q k)
  then show ?case by (simp add: fair_from_def)
next
  case (2 timer q k c cs)
  have notin: "pid c \<notin> pid ` set cs" and dcs: "distinct (map pid cs)"
    using "2.prems" by auto
  show ?case
  proof (cases "run_quantum timer k (pid c)")
    case (Inl e)
    show ?thesis unfolding rr_Cons_fails [OF Inl] by (rule fair_from_pair)
  next
    case (Inr y)
    obtain r k' hs where y: "y = (r, k', hs)" by (cases y) auto
    have rq: "run_quantum timer k (pid c) = Inr (r, k', hs)" using Inr y by simp
    note qe = quantum_events_quiet [OF rq]
    let ?T = "SetITimer timer # hs @ [WaitPid (pid c) r, (if r = 0 then SigStop (pid c) else Free (pid c))]"
    show ?thesis
    proof (cases "r = 0")
      case True
      let ?cs' = "cs @ [preempted_v3 q c]"
      let ?R' = "round_robin timer q k' ?cs'"
      have d': "distinct (map pid ?cs')" using "2.prems" by auto
      have L: "pid ` set (c # cs) - {y. Free y \<in> set ?T} = pid ` set ?cs'"
        unfolding qe(2) using True by auto
      have f: "fair_from (pid ` set (c # cs) - {y. Free y \<in> set ?T}) ?R'"
        unfolding L using "2.IH"(1) [OF rq refl refl True d'] .
      have "fair_from (pid ` set (c # cs)) (SigCont (pid c) # ?T @ ?R')"
      proof (rule fair_from_head [OF qe(1) f])
        fix j x
        assume j: "j < length ?R'" and e: "?R' ! j = SigCont (pid c)"
          and x: "x \<in> pid ` set (c # cs) - {y. Free y \<in> set ?T}"
        show "x = pid c \<or> SigCont x \<in> set (take j ?R')"
        proof (cases "x = pid c")
          case True
          then show ?thesis by simp
        next
          case False
          then obtain a where a: "a \<in> set cs" "x = pid a" using x by auto
          have "SigCont (pid a) \<in> set (take j (round_robin timer q k' (cs @ preempted_v3 q c # [])))"
            using rr_before [of cs "preempted_v3 q c" "[]" j timer q k' a] d' j e a(1) by simp
          then show ?thesis using a(2) by simp
        qed
      qed
      then show ?thesis unfolding rr_Cons_ok [OF rq] using True by simp
    next
      case False
      let ?R' = "round_robin timer q k' cs"
      have L: "pid ` set (c # cs) - {y. Free y \<in> set ?T} = pid ` set cs"
        unfolding qe(2) using False notin by auto
      have f: "fair_from (pid ` set (c # cs) - {y. Free y \<in> set ?T}) ?R'"
        unfolding L using "2.IH"(2) [OF rq refl refl False dcs] .
      have "fair_from (pid ` set (c # cs)) (SigCont (pid c) # ?T @ ?R')"
      proof (rule fair_from_head [OF qe(1) f])
        fix j x
        assume j: "j < length ?R'" and e: "?R' ! j = SigCont (pid c)"
        then have "SigCont (pid c) \<in> set ?R'" by (metis nth_mem)
        then have "pid c \<in> pid ` set cs" by (rule rr_conts_subset)
        then show "x = pid c \<or> SigCont x \<in> set (take j ?R')" using notin by simp
      qed
      then show ?thesis unfolding rr_Cons_ok [OF rq] using False by simp
    qed
  qed
qed

lemma fair_run_launch:
  assumes nf: "\<forall>x. Fork x \<notin> set R" and f: "fair_from (fst ` set cmds) R"
  shows "fair_run (map (\<lambda>cmd. Fork (fst cmd)) cmds @ R)"
  unfolding fair_run_def
proof (intro allI impI ballI)
  let ?F = "map (\<lambda>cmd. Fork (fst cmd)) cmds"
  fix j i p x
  assume j: "j < length (?F @ R)" and i: "i < j"
    and e: "(?F @ R) ! i = SigCont p \<and> (?F @ R) ! j = SigCont p"
    and x: "x \<in> live (take j (?F @ R))"
  have F: "n < length ?F \<Longrightarrow> ?F ! n \<noteq> SigCont p" for n by simp
  have i': "length ?F \<le> i" using e F [of i] by (cases "i < length ?F") (auto simp: nth_append)
  then have j': "length ?F \<le> j" using i by simp
  let ?i = "i - length ?F" and ?j = "j - length ?F"
  have ij: "?i < ?j" "?j < length R" "R ! ?i = SigCont p" "R ! ?j = SigCont p"
    using i i' j j' e by (auto simp: nth_append)
  have tk: "take j (?F @ R) = ?F @ take ?j R" using j' by simp
  have "Fork y \<notin> set (take ?j R)" for y using nf by (meson in_set_takeD)
  then have xx: "x \<in> fst ` set cmds - {y. Free y \<in> set (take ?j R)}"
    using x unfolding tk by (auto simp: live_def)
  have "SigCont x \<in> set (take (?j - ?i) (drop ?i R))"
    using f [unfolded fair_from_def, rule_format, OF ij(2) ij(1) conjI [OF ij(3) ij(4)] xx] .
  moreover have "take (j - i) (drop i (?F @ R)) = take (?j - ?i) (drop ?i R)"
    using i' j' i by simp
  ultimately show "SigCont x \<in> set (take (j - i) (drop i (?F @ R)))" by simp
qed

lemma dispatches_append: "dispatches (xs @ ys) = dispatches xs @ dispatches ys"
  by (induction xs rule: dispatches.induct) auto

lemma dispatches_handler_calls: "\<forall>e \<in> set hs. \<exists>x. e = WaitAny x \<Longrightarrow> dispatches hs = []"
  by (induction hs) auto

lemma dispatches_rr_Cons:
  assumes "run_quantum timer k (pid c) = Inr (r, k', hs)"
  shows "dispatches (round_robin timer q k (c # cs)) =
     pid c # dispatches (if r = 0 then round_robin timer q k' (cs @ [preempted_v3 q c])
                         else round_robin timer q k' cs)"
proof -
  have "dispatches hs = []"
    using run_quantum_hs [OF assms] by (intro dispatches_handler_calls) blast
  then show ?thesis unfolding rr_Cons_ok [OF assms] by (simp add: dispatches_append)
qed

lemma rr_dispatches_all:
  "distinct (map pid cs) \<Longrightarrow> pid ` set cs \<subseteq> fst ` set k \<Longrightarrow> \<forall>c \<in> set cs. 0 < pid c \<Longrightarrow>
   pid ` set cs \<subseteq> set (dispatches (round_robin t q k cs))"
proof (induction t q k cs rule: round_robin.induct)
  case (1 timer q k)
  then show ?case by simp
next
  case (2 timer q k c cs)
  have c: "pid c \<in> fst ` set k" "0 < pid c" "pid c \<notin> pid ` set cs" "distinct (map pid cs)"
    using "2.prems" by auto
  obtain r k' hs where rq: "run_quantum timer k (pid c) = Inr (r, k', hs)"
    using run_quantum_good [OF c(1,2)] by blast
  note keys = run_quantum_keys [OF rq]
  have sub: "pid ` set cs \<subseteq> fst ` set k" using "2.prems"(2) by simp
  show ?case
  proof (cases "r = 0")
    case True
    have "pid ` set (cs @ [preempted_v3 q c]) \<subseteq>
        set (dispatches (round_robin timer q k' (cs @ [preempted_v3 q c])))"
      using "2.IH"(1) [OF rq refl refl True] "2.prems" keys True by auto
    then show ?thesis unfolding dispatches_rr_Cons [OF rq] using True by auto
  next
    case False
    have "pid ` set cs \<subseteq> fst ` set k - {pid c}"
      using sub c(3) by (simp only: subset_Diff_insert Diff_empty simp_thms)
    then have "pid ` set cs \<subseteq> fst ` set k'" using keys False by simp
    then have "pid ` set cs \<subseteq> set (dispatches (round_robin timer q k' cs))"
      using "2.IH"(2) [OF rq refl refl False c(4)] "2.prems"(3) by simp
    then show ?thesis unfolding dispatches_rr_Cons [OF rq] using False by auto
  qed
qed

lemma dispatches_conts: "set (dispatches es) = {x. SigCont x \<in> set es}"
  by (induction es rule: dispatches.induct) auto

lemma dispatch_order_fair:
  assumes "resolve_quantum qargs QUANT_ENV = Inr q" and "fd \<noteq> -1"
    and "distinct (map fst cmds)" and "\<forall>p \<in> fst ` set cmds. 0 < p"
    and "2 * int (length cmds) \<le> INT_MAX"
  shows "\<exists>es. usps dqc qargs QUANT_ENV fd cmds = Exited 0 es \<and> fair_run es \<and>
          set (dispatches es) = fst ` set cmds \<and> live es = {}"
proof -
  let ?cs = "map (\<lambda>cmd. new_pcb (fst cmd)) cmds"
  let ?rr = "round_robin (set_up_timer q) q cmds ?cs"
  let ?es = "map (\<lambda>cmd. Fork (fst cmd)) cmds @ ?rr"
  have run: "usps dqc qargs QUANT_ENV fd cmds = Exited 0 ?es"
    using usps_run [OF assms] .
  have m: "map pid ?cs = map fst cmds" by (simp add: new_pcb_def comp_def)
  then have im: "pid ` set ?cs = fst ` set cmds" by (metis set_map)
  have d: "distinct (map pid ?cs)" unfolding m by (rule assms(3))
  have "fair_from (pid ` set ?cs) ?rr" using d by (rule rr_fair)
  then have fair: "fair_run ?es" using rr_no_fork unfolding im by (intro fair_run_launch) auto
  have pos: "\<forall>c \<in> set ?cs. 0 < pid c" using assms(4) im by (metis imageI)
  have "pid ` set ?cs \<subseteq> set (dispatches ?rr)"
    using rr_dispatches_all [OF d _ pos, of cmds] im by simp
  moreover have "x \<in> pid ` set ?cs" if "SigCont x \<in> set ?rr" for x
    using that by (rule rr_conts_subset)
  then have "set (dispatches ?rr) \<subseteq> pid ` set ?cs"
    unfolding dispatches_conts by blast
  ultimately have all: "set (dispatches ?es) = fst ` set cmds"
    using im by (simp add: dispatches_forks)
  have p1: "-1 \<notin> fst ` set cmds" "0 \<notin> fst ` set cmds" using assms(4) by auto
  let ?q0 = "\<lparr>qd_count = 0, qd_size = 128, qd_in = 0, qd_out = 0,
      qd_buffer = replicate (nat 128) (None :: ChildProcess option)\<rparr>"
  have aq: "ArrayQueue True dqc MAX_PROCESSES = Some ?q0"
    by (simp add: ArrayQueue_def newQueue_def MAX_PROCESSES_def)
  obtain e s0 where l: "launch cmds \<lparr>queue = ?q0, kernel = [], events = []\<rparr> = (e, s0)"
    by (cases "launch cmds \<lparr>queue = ?q0, kernel = [], events = []\<rparr>") auto
  have l0: "e = None" "sched_ok s0"
    using launch_ok [OF assms(3) p1 assms(5) aq l] by simp_all
  obtain s where s: "sched_loop (set_up_timer q) q s0 = Inr s" "events s = ?es"
    using run assms(1,2) aq l l0(1) by (auto simp: usps_def split: sum.splits)
  have reach: "(sched_step (set_up_timer q) q)\<^sup>*\<^sup>* s0 s" "q_isEmpty (queue s)"
    using sched_loop_reach [OF s(1)] by simp_all
  have ok: "sched_ok s" using sched_ok_reach [OF reach(1) l0(2)] .
  have "q_elems (queue s) = []"
    using ok reach(2) q_elems_length [of "queue s"] by (simp add: sched_ok_def sched_inv_def q_isEmpty_def)
  then have "ready s = []" by (simp add: ready_def ready_pcbs_def)
  then have "live ?es = {}" using ok s(2) by (simp add: sched_ok_def)
  then show ?thesis using run fair all by blast
qed

text \<open>
  Below one second the timer is armed for the quantum, and two processes that run for
  more than two quanta and at most three are dispatched in turn.
\<close>

lemma rr_preempted:
  assumes "setitimer timer = Some t" and "map_of k (pid c) = Some w" and "t < w"
  shows "dispatches (round_robin timer q k (c # cs)) =
     pid c # dispatches (round_robin timer q (pt_run (pid c) t k) (cs @ [preempted_v3 q c]))"
proof -
  have "run_quantum timer k (pid c) = Inr (0, pt_run (pid c) t k, [])"
    using assms by (simp add: run_quantum_cases)
  then show ?thesis using dispatches_rr_Cons by simp
qed

lemma rr_exited:
  assumes "setitimer timer = Some t" and "map_of k (pid c) = Some w" and "w \<le> t" and "0 < pid c"
  shows "dispatches (round_robin timer q k (c # cs)) =
     pid c # dispatches (round_robin timer q (pt_reap (pid c) k) cs)"
proof -
  have "run_quantum timer k (pid c) = Inr (-1, pt_reap (pid c) k,
      [WaitAny (pid c), WaitAny (if pt_reap (pid c) k = [] then -1 else 0)])"
    using assms by (simp add: run_quantum_cases)
  then show ?thesis using dispatches_rr_Cons by simp
qed

lemma round_robin_below_one_second:
  assumes q: "resolve_quantum qargs QUANT_ENV = Inr q" "0 < q" "q < 1000" and fd: "fd \<noteq> -1"
    and pids: "A \<noteq> B" "0 < A" "0 < B"
    and a: "2 * nat (q * 1000) < a" "a \<le> 3 * nat (q * 1000)"
    and b: "2 * nat (q * 1000) < b" "b \<le> 3 * nat (q * 1000)"
  shows "\<exists>es. usps dqc qargs QUANT_ENV fd [(A, a), (B, b)] = Exited 0 es \<and>
          dispatches es = [A, B, A, B, A, B]"
proof -
  let ?cmds = "[(A, a), (B, b)]"
  let ?timer = "set_up_timer q"
  define t where "t = nat (q * 1000)"
  have st: "setitimer ?timer = Some t"
    unfolding t_def by (rule setitimer_below_one_second [OF q(2,3)])
  have ab: "2 * t < a" "a \<le> 3 * t" "2 * t < b" "b \<le> 3 * t" using a b by (simp_all add: t_def)
  define cA cB where "cA = new_pcb A" and "cB = new_pcb B"
  have p: "pid cA = A" "pid cB = B" by (simp_all add: cA_def cB_def new_pcb_def)
  define cA1 cB1 cA2 cB2 where "cA1 = preempted_v3 q cA" and "cB1 = preempted_v3 q cB"
    and "cA2 = preempted_v3 q cA1" and "cB2 = preempted_v3 q cB1"
  have p1: "pid cA1 = A" "pid cB1 = B" "pid cA2 = A" "pid cB2 = B"
    by (simp_all add: cA1_def cB1_def cA2_def cB2_def p)
  have s1: "dispatches (round_robin ?timer q [(A, a), (B, b)] [cA, cB]) =
      A # dispatches (round_robin ?timer q [(A, a - t), (B, b)] [cB, cA1])"
    using rr_preempted [OF st, of "[(A, a), (B, b)]" cA a q "[cB]"] ab pids
    by (simp add: p pt_run_def cA1_def del: round_robin.simps(2))
  have s2: "dispatches (round_robin ?timer q [(A, a - t), (B, b)] [cB, cA1]) =
      B # dispatches (round_robin ?timer q [(A, a - t), (B, b - t)] [cA1, cB1])"
    using rr_preempted [OF st, of "[(A, a - t), (B, b)]" cB b q "[cA1]"] ab pids
    by (simp add: p pt_run_def cB1_def del: round_robin.simps(2))
  have s3: "dispatches (round_robin ?timer q [(A, a - t), (B, b - t)] [cA1, cB1]) =
      A # dispatches (round_robin ?timer q [(A, a - t - t), (B, b - t)] [cB1, cA2])"
    using rr_preempted [OF st, of "[(A, a - t), (B, b - t)]" cA1 "a - t" q "[cB1]"] ab pids
    by (simp add: p1 pt_run_def cA2_def del: round_robin.simps(2))
  have s4: "dispatches (round_robin ?timer q [(A, a - t - t), (B, b - t)] [cB1, cA2]) =
      B # dispatches (round_robin ?timer q [(A, a - t - t), (B, b - t - t)] [cA2, cB2])"
    using rr_preempted [OF st, of "[(A, a - t - t), (B, b - t)]" cB1 "b - t" q "[cA2]"] ab pids
    by (simp add: p1 pt_run_def cB2_def del: round_robin.simps(2))
  have s5: "dispatches (round_robin ?timer q [(A, a - t - t), (B, b - t - t)] [cA2, cB2]) =
      A # dispatches (round_robin ?timer q [(B, b - t - t)] [cB2])"
    using rr_exited [OF st, of "[(A, a - t - t), (B, b - t - t)]" cA2 "a - t - t" q "[cB2]"] ab pids
    by (simp add: p1 pt_reap_def del: round_robin.simps(2))
  have s6: "dispatches (round_robin ?timer q [(B, b - t - t)] [cB2]) = [B]"
    using rr_exited [OF st, of "[(B, b - t - t)]" cB2 "b - t - t" q "[]"] ab pids
    by (simp add: p1 pt_reap_def del: round_robin.simps(2))
  have "usps dqc qargs QUANT_ENV fd ?cmds =
    Exited 0 (map (\<lambda>cmd. Fork (fst cmd)) ?cmds @
      round_robin ?timer q ?cmds (map (\<lambda>cmd. new_pcb (fst cmd)) ?cmds))"
    using usps_run [OF q(1) fd, of ?cmds dqc] pids by (simp add: INT_MAX_def)
  moreover have "dispatches (map (\<lambda>cmd. Fork (fst cmd)) ?cmds @
      round_robin ?timer q ?cmds (map (\<lambda>cmd. new_pcb (fst cmd)) ?cmds)) = [A, B, A, B, A, B]"
    unfolding dispatches_forks using s1 s2 s3 s4 s5 s6
    by (simp add: cA_def cB_def del: round_robin.simps(2))
  ultimately show ?thesis by blast
qed

subsection \<open>Reaping and finalizing\<close>

lemma put_rows_short:
  "i \<le> length table \<Longrightarrow> length table < i + n \<Longrightarrow> put_rows table i n \<noteq> None"
  by (induction n arbitrary: i) auto

lemma launch_v4_run:
  assumes "sched_inv (sch s)" and "-1 \<notin> fst ` set cmds" and "0 \<notin> fst ` set cmds"
    and "2 * (qd_count (queue (sch s)) + int (length cmds)) \<le> INT_MAX"
    and "\<forall>e \<in> set (events (sch s)). \<exists>p. e = Fork p" and "0 \<le> numProcesses s"
  shows "\<exists>e s'. launch_v4 cmds s = (e, s') \<and> (\<forall>e \<in> set (events (sch s')). \<exists>p. e = Fork p) \<and>
           (e = Some OutOfBounds \<or>
            e = None \<and> sched_inv (sch s') \<and>
              ready_pcbs (sch s') = ready_pcbs (sch s) @ map (\<lambda>cmd. new_pcb (fst cmd)) cmds \<and>
              timeRuning s' = timeRuning s \<and>
              numProcesses s' = numProcesses s + int (length cmds))"
  using assms
proof (induction cmds arbitrary: s)
  case Nil
  then show ?case by simp
next
  case (Cons cmd cmds)
  obtain r w where cmd: "cmd = (r, w)" by (cases cmd) auto
  have r: "r \<noteq> -1" "r \<noteq> 0" using Cons.prems cmd by auto
  let ?sch = "\<lparr>queue = snd (q_enqueue True (queue (sch s)) (Some (new_pcb r))),
      kernel = kernel (sch s) @ [(r, w)], events = events (sch s) @ [Fork r]\<rparr>"
  have qi: "q_inv (queue (sch s))" using Cons.prems(1) by (simp add: sched_inv_def)
  have b: "2 * (qd_count (queue (sch s)) + 1) \<le> INT_MAX" using Cons.prems(4) by simp
  note e = q_enqueue_props [OF qi b, of "Some (new_pcb r)"]
  have inv1: "sched_inv ?sch" using e Cons.prems(1) by (simp add: sched_inv_def)
  have rdy1: "ready_pcbs ?sch = ready_pcbs (sch s) @ [new_pcb r]"
    using e by (simp add: ready_pcbs_def)
  have ev1: "\<forall>e \<in> set (events ?sch). \<exists>p. e = Fork p" using Cons.prems(5) by auto
  show ?case
  proof (cases "int (length (pid_list s)) \<le> numProcesses s")
    case True
    then have "launch_v4 (cmd # cmds) s = (Some OutOfBounds, s\<lparr>sch := ?sch\<rparr>)"
      using r cmd by (simp add: Let_def)
    then show ?thesis using ev1 by simp
  next
    case False
    let ?s1 = "s\<lparr>sch := ?sch, pid_list := (pid_list s)[nat (numProcesses s) := Some r],
        numProcesses := numProcesses s + 1\<rparr>"
    have l: "launch_v4 (cmd # cmds) s = launch_v4 cmds ?s1"
      using r cmd False Cons.prems(6) by (simp add: Let_def)
    have b1: "2 * (qd_count (queue (sch ?s1)) + int (length cmds)) \<le> INT_MAX"
      using e Cons.prems(4) by simp
    have "\<exists>e s'. launch_v4 cmds ?s1 = (e, s') \<and> (\<forall>e \<in> set (events (sch s')). \<exists>p. e = Fork p) \<and>
           (e = Some OutOfBounds \<or>
            e = None \<and> sched_inv (sch s') \<and>
              ready_pcbs (sch s') = ready_pcbs (sch ?s1) @ map (\<lambda>cmd. new_pcb (fst cmd)) cmds \<and>
              timeRuning s' = timeRuning ?s1 \<and>
              numProcesses s' = numProcesses ?s1 + int (length cmds))"
      using Cons.IH [of ?s1] inv1 Cons.prems(2,3,6) b1 ev1 by simp
    then show ?thesis using l rdy1 cmd by auto
  qed
qed

text \<open>
  Every run of uspsv4.c that launches a command fails before its first exit-status
  check: past the end of \<open>pid_list\<close> or of \<open>table\<close> with more commands than cells, and
  otherwise in the first pass through the body of the wait loop, which prints twelve
  rows of a table of eight. No \<open>waitpid\<close> has returned a pid by then, and no control
  block has been freed.
\<close>

lemma uspsv4_never_reaps:
  assumes q: "resolve_quantum qargs QUANT_ENV = Inr q" and fd: "fd \<noteq> -1"
    and ne: "cmds \<noteq> []" and pids: "-1 \<notin> fst ` set cmds" "0 \<notin> fst ` set cmds"
    and n: "2 * int (length cmds) \<le> INT_MAX"
  shows "\<exists>e es. uspsv4 dqc qargs QUANT_ENV fd cmds = Failed e es \<and> reaped es = [] \<and> frees es = []"
proof -
  let ?q0 = "\<lparr>qd_count = 0, qd_size = 128, qd_in = 0, qd_out = 0,
      qd_buffer = replicate (nat 128) (None :: ChildProcess option)\<rparr>"
  let ?s0 = "\<lparr>sch = \<lparr>queue = ?q0, kernel = [], events = []\<rparr>,
      pid_list = replicate (nat MAX_PROCESSES) None, numProcesses = 0, timeRuning = 0\<rparr>"
  have aq: "ArrayQueue True dqc MAX_PROCESSES = Some ?q0"
    by (simp add: ArrayQueue_def newQueue_def MAX_PROCESSES_def)
  have inv0: "sched_inv (sch ?s0)" by (simp add: sched_inv_def q_inv_def q_elems_def INT_MAX_def)
  have r0: "ready_pcbs (sch ?s0) = []" by (simp add: ready_pcbs_def q_elems_def)
  have after: "reaped (es @ xs) = reaped xs \<and> frees (es @ xs) = frees xs"
    if "\<forall>e \<in> set es. \<exists>p. e = Fork p" for es xs
    using that by (induction es) auto
  have quiet: "reaped es = [] \<and> frees es = []" if "\<forall>e \<in> set es. \<exists>p. e = Fork p" for es
    using after [OF that, of "[]"] by simp
  obtain e s1 where l: "launch_v4 cmds ?s0 = (e, s1)"
      and ev: "\<forall>e \<in> set (events (sch s1)). \<exists>p. e = Fork p"
      and c: "e = Some OutOfBounds \<or>
          e = None \<and> sched_inv (sch s1) \<and>
            ready_pcbs (sch s1) = map (\<lambda>cmd. new_pcb (fst cmd)) cmds \<and>
            timeRuning s1 = 0 \<and> numProcesses s1 = int (length cmds)"
    using launch_v4_run [OF inv0 pids, of] n r0 by auto
  from c show ?thesis
  proof
    assume "e = Some OutOfBounds"
    then have "uspsv4 dqc qargs QUANT_ENV fd cmds = Failed OutOfBounds (events (sch s1))"
      using q fd aq l by (simp add: uspsv4_def)
    then show ?thesis using quiet [OF ev] by simp
  next
    assume a: "e = None \<and> sched_inv (sch s1) \<and>
        ready_pcbs (sch s1) = map (\<lambda>cmd. new_pcb (fst cmd)) cmds \<and>
        timeRuning s1 = 0 \<and> numProcesses s1 = int (length cmds)"
    show ?thesis
    proof (cases "new_table (numProcesses s1)")
      case (Inl x)
      then have "uspsv4 dqc qargs QUANT_ENV fd cmds = Failed x (events (sch s1))"
        using q fd aq l a by (simp add: uspsv4_def)
      then show ?thesis using quiet [OF ev] by simp
    next
      case (Inr table)
      then have len: "length table = 8"
        using a by (auto simp: new_table_def split: if_splits)
      obtain c cs where rdy: "ready_pcbs (sch s1) = c # cs"
        using a ne by (cases cmds) auto
      have inv1: "sched_inv (sch s1)" using a by simp
      have qi: "q_inv (queue (sch s1))" using inv1 by (simp add: sched_inv_def)
      have el: "q_elems (queue (sch s1)) = Some c # map Some cs"
        using q_elems_ready [OF inv1] rdy by simp
      have cnt: "0 < qd_count (queue (sch s1))"
        using q_elems_length [OF qi] el by simp
      obtain st x qd where d: "q_dequeue (queue (sch s1)) None = (st, x, qd)"
        by (cases "q_dequeue (queue (sch s1)) None") auto
      have x: "x = Some c" using q_dequeue_props(2) [OF qi cnt d] el by simp
      obtain err where err: "status_table (timeRuning s1) table = Some err"
        using put_rows_short [of 0 table 12] len a by (auto simp: status_table_def)
      let ?es = "events (sch s1) @ [SigCont (pid c), SetITimer (set_up_timer q)]"
      have "sched_iter_v4 table (set_up_timer q) q s1 = Inl (err, ?es)"
        using d x err by (simp add: sched_iter_v4_def Let_def)
      then have "sched_loop_v4 table (set_up_timer q) q s1 = Inl (err, ?es)"
        using cnt by (simp add: sched_loop_v4.simps [of table "set_up_timer q" q s1] q_isEmpty_def)
      then have "uspsv4 dqc qargs QUANT_ENV fd cmds = Failed err ?es"
        using q fd aq l a Inr by (simp add: uspsv4_def)
      moreover have "reaped ?es = [] \<and> frees ?es = []"
        using after [OF ev] by simp
      ultimately show ?thesis by simp
    qed
  qed
qed

text \<open>
  C7 says that every process handle is reaped exactly once across the whole run, by an
  exit-status check on that handle, and that a finalized control block is never put
  back. The run of uspsv4.c with one command does not get that far. \<open>main\<close> resumes the
  child 101, sets both flags and enters the wait loop; \<open>timeRuning\<close> is \<open>0\<close>, so the body
  prints the rows of \<open>table\<close>, of which only \<open>table[0]\<close> was ever assigned for a single
  command, and \<open>p1putstr(1, table[1])\<close> reads a pointer that was never set. The run ends
  there: the child has been resumed, no \<open>waitpid\<close> has been called, its status is never
  obtained and its control block never freed.
\<close>

theorem uspsv4_fails_before_reaping:
  "new_table 1 = Inr [Header, Wild, Wild, Wild, Wild, Wild, Wild, Wild] \<and>
   status_table 0 [Header, Wild, Wild, Wild, Wild, Wild, Wild, Wild] = Some WildPointer \<and>
   uspsv4 50 [500] None 0 [(101, 300000)] =
     Failed WildPointer [Fork 101, SigCont 101, SetITimer (set_up_timer 500)] \<and>
   reaped [Fork 101, SigCont 101, SetITimer (set_up_timer 500)] = [] \<and>
   frees [Fork 101, SigCont 101, SetITimer (set_up_timer 500)] = []"
proof -
  have t: "new_table 1 = Inr [Header, Wild, Wild, Wild, Wild, Wild, Wild, Wild]"
    by (simp add: new_table_def eval_nat_numeral)
  have s: "status_table 0 [Header, Wild, Wild, Wild, Wild, Wild, Wild, Wild] = Some WildPointer"
    by (simp add: status_table_def eval_nat_numeral)
  have r: "resolve_quantum [500] None = Inr 500" by (simp add: resolve_quantum_def)
  let ?s1 = "\<lparr>sch = \<lparr>queue = \<lparr>qd_count = 1, qd_size = 128, qd_in = 1, qd_out = 0,
                              qd_buffer = (replicate 128 None)[0 := Some (new_pcb 101)]\<rparr>,
                   kernel = [(101, 300000)], events = [Fork 101]\<rparr>,
             pid_list = (replicate 128 None)[0 := Some 101], numProcesses = 1, timeRuning = 0\<rparr>"
  have l: "launch_v4 [(101, 300000)]
      \<lparr>sch = \<lparr>queue = \<lparr>qd_count = 0, qd_size = 128, qd_in = 0, qd_out = 0,
                        qd_buffer = replicate 128 None\<rparr>, kernel = [], events = []\<rparr>,
       pid_list = replicate 128 None, numProcesses = 0, timeRuning = 0\<rparr> = (None, ?s1)"
    by (simp add: q_enqueue_def q_put_def Let_def int_of_long_smod int_of_long_id INT_MAX_def)
  have i: "sched_iter_v4 [Header, Wild, Wild, Wild, Wild, Wild, Wild, Wild] (set_up_timer 500) 500 ?s1 =
      Inl (WildPointer, [Fork 101, SigCont 101, SetITimer (set_up_timer 500)])"
    by (simp add: sched_iter_v4_def q_dequeue_def Let_def s new_pcb_def)
  have "sched_loop_v4 [Header, Wild, Wild, Wild, Wild, Wild, Wild, Wild] (set_up_timer 500) 500 ?s1 =
      Inl (WildPointer, [Fork 101, SigCont 101, SetITimer (set_up_timer 500)])"
    by (subst sched_loop_v4.simps) (simp add: i q_isEmpty_def)
  then have u: "uspsv4 50 [500] None 0 [(101, 300000)] =
      Failed WildPointer [Fork 101, SigCont 101, SetITimer (set_up_timer 500)]"
    using r l t by (simp add: uspsv4_def ArrayQueue_def newQueue_def MAX_PROCESSES_def)
  show ?thesis using t s u by simp
qed

text \<open>
  uspsv3.c has the same handler and the same exit-status check, and \<open>sleep(1)\<close> for the
  body of the wait loop. There the claim holds of every run in which each \<open>fork\<close>
  succeeds: every handle is returned by exactly one \<open>waitpid\<close>, while its child is the
  one resumed; that call is the \<open>waitpid(-1)\<close> of \<open>sigchld_handler\<close>, and the check of
  \<open>main\<close> on the handle then answers \<open>-1\<close>; \<open>main\<close> checks the handle it has just
  resumed, frees the control block after that answer, and does nothing to the handle
  afterwards.
\<close>

lemma run_quantum_shape:
  assumes "p \<in> fst ` set k" and "0 < p"
  shows "(\<exists>t. run_quantum timer k p = Inr (0, pt_run p t k, [])) \<or>
         (\<exists>z. z \<le> 0 \<and> run_quantum timer k p = Inr (-1, pt_reap p k, [WaitAny p, WaitAny z]))"
proof -
  obtain w where "map_of k p = Some w"
    using assms(1) by (metis map_of_eq_None_iff not_None_eq)
  then show ?thesis using assms(2) by (auto simp: run_quantum_cases)
qed

lemma handled_subset: "set (handled (round_robin t q k cs)) \<subseteq> pid ` set cs"
proof (induction t q k cs rule: round_robin.induct)
  case (1 timer q k)
  then show ?case by simp
next
  case (2 timer q k c cs)
  show ?case
  proof (cases "run_quantum timer k (pid c)")
    case (Inl e)
    then show ?thesis by simp
  next
    case (Inr y)
    obtain r k' hs where y: "y = (r, k', hs)" by (cases y) auto
    have rq: "run_quantum timer k (pid c) = Inr (r, k', hs)" using Inr y by simp
    have hs: "handled (hs @ es) = handled es" for es
    proof -
      have "\<forall>e \<in> set hs'. \<exists>x. e = WaitAny x \<Longrightarrow> handled (hs' @ es) = handled es" for hs'
        by (induction hs') auto
      then show ?thesis using run_quantum_hs [OF rq] by blast
    qed
    show ?thesis
    proof (cases "r = 0")
      case True
      then show ?thesis using "2.IH"(1) [OF rq refl refl True] rq by (auto simp: hs)
    next
      case False
      then show ?thesis using "2.IH"(2) [OF rq refl refl False] rq by (auto simp: hs)
    qed
  qed
qed

lemma rr_reaps:
  "distinct (map pid cs) \<Longrightarrow> pid ` set cs \<subseteq> fst ` set k \<Longrightarrow> \<forall>c \<in> set cs. 0 < pid c \<Longrightarrow>
     reaped (round_robin t q k cs) = frees (round_robin t q k cs) \<and>
     distinct (frees (round_robin t q k cs)) \<and>
     set (frees (round_robin t q k cs)) = pid ` set cs \<and>
     checks (round_robin t q k cs) = dispatches (round_robin t q k cs) \<and>
     free_is_final (round_robin t q k cs) \<and>
     reaped_running [] (round_robin t q k cs) \<and>
     (\<forall>p r. WaitPid p r \<in> set (round_robin t q k cs) \<longrightarrow> r = 0 \<or> r = -1)"
proof (induction t q k cs rule: round_robin.induct)
  case (1 timer q k)
  then show ?case by simp
next
  case (2 timer q k c cs)
  have c: "pid c \<in> fst ` set k" "0 < pid c" "pid c \<notin> pid ` set cs" "distinct (map pid cs)"
    using "2.prems" by auto
  have sub: "pid ` set cs \<subseteq> fst ` set k" using "2.prems"(2) by simp
  from run_quantum_shape [OF c(1,2), of timer] show ?case
  proof (elim disjE exE conjE)
    fix t
    assume rq: "run_quantum timer k (pid c) = Inr (0, pt_run (pid c) t k, [])"
    let ?cs' = "cs @ [preempted_v3 q c]"
    have d': "distinct (map pid ?cs')" using "2.prems"(1) by auto
    have sub': "pid ` set ?cs' \<subseteq> fst ` set (pt_run (pid c) t k)"
      using "2.prems"(2) by (simp add: pt_run_keys)
    have pos': "\<forall>c \<in> set ?cs'. 0 < pid c" using "2.prems"(3) by simp
    have im: "pid ` set ?cs' = pid ` set (c # cs)" by auto
    show ?thesis
      using "2.IH"(1) [OF rq refl refl refl d' sub' pos'] rq unfolding im by simp
  next
    fix z :: int
    assume z: "z \<le> 0"
      and rq: "run_quantum timer k (pid c) = Inr (-1, pt_reap (pid c) k, [WaitAny (pid c), WaitAny z])"
    have sub': "pid ` set cs \<subseteq> fst ` set (pt_reap (pid c) k)"
      using sub c(3) by (simp only: pt_reap_keys subset_Diff_insert Diff_empty simp_thms)
    have pos': "\<forall>c \<in> set cs. 0 < pid c" using "2.prems"(3) by simp
    have nh: "pid c \<notin> set (handled (round_robin timer q (pt_reap (pid c) k) cs))"
      using handled_subset [of timer q "pt_reap (pid c) k" cs] c(3) by auto
    have ne: "(-1::int) \<noteq> 0" by simp
    show ?thesis
      using "2.IH"(2) [OF rq refl refl ne c(4) sub' pos'] rq c(2,3) z nh by simp
  qed
qed

lemma readings_forks:
  "reaped (map (\<lambda>cmd. Fork (fst cmd)) cmds @ es) = reaped es"
  "frees (map (\<lambda>cmd. Fork (fst cmd)) cmds @ es) = frees es"
  "checks (map (\<lambda>cmd. Fork (fst cmd)) cmds @ es) = checks es"
  "free_is_final (map (\<lambda>cmd. Fork (fst cmd)) cmds @ es) = free_is_final es"
  "reaped_running ps (map (\<lambda>cmd. Fork (fst cmd)) cmds @ es) = reaped_running ps es"
  by (induction cmds) simp_all

lemma uspsv3_reaps_once:
  assumes "resolve_quantum qargs QUANT_ENV = Inr q" and "fd \<noteq> -1"
    and "distinct (map fst cmds)" and "\<forall>p \<in> fst ` set cmds. 0 < p"
    and "2 * int (length cmds) \<le> INT_MAX"
  shows "\<exists>es. usps dqc qargs QUANT_ENV fd cmds = Exited 0 es \<and>
          distinct (reaped es) \<and> set (reaped es) = fst ` set cmds \<and> reaped_running [] es \<and>
          (\<forall>p r. WaitPid p r \<in> set es \<longrightarrow> r = 0 \<or> r = -1) \<and>
          checks es = dispatches es \<and> frees es = reaped es \<and> free_is_final es"
proof -
  let ?cs = "map (\<lambda>cmd. new_pcb (fst cmd)) cmds"
  let ?rr = "round_robin (set_up_timer q) q cmds ?cs"
  let ?es = "map (\<lambda>cmd. Fork (fst cmd)) cmds @ ?rr"
  have run: "usps dqc qargs QUANT_ENV fd cmds = Exited 0 ?es"
    using usps_run [OF assms] .
  have m: "map pid ?cs = map fst cmds" by (simp add: new_pcb_def comp_def)
  then have im: "pid ` set ?cs = fst ` set cmds" by (metis set_map)
  have d: "distinct (map pid ?cs)" unfolding m by (rule assms(3))
  have pos: "\<forall>c \<in> set ?cs. 0 < pid c" using assms(4) im by (metis imageI)
  have sub: "pid ` set ?cs \<subseteq> fst ` set cmds" using im by simp
  note f = rr_reaps [OF d sub pos, of "set_up_timer q" q]
  have w: "WaitPid p r \<in> set ?es \<Longrightarrow> WaitPid p r \<in> set ?rr" for p r by auto
  have "distinct (reaped ?es) \<and> set (reaped ?es) = fst ` set cmds \<and> reaped_running [] ?es \<and>
      (\<forall>p r. WaitPid p r \<in> set ?es \<longrightarrow> r = 0 \<or> r = -1) \<and>
      checks ?es = dispatches ?es \<and> frees ?es = reaped ?es \<and> free_is_final ?es"
    using f w unfolding readings_forks dispatches_forks im by metis
  then show ?thesis using run by blast
qed

text \<open>
  When a \<open>fork\<close> fails, \<open>main\<close> returns \<open>EXIT_FAILURE\<close> at once, in both versions
  (uspsv3.c lines 144 to 147, uspsv4.c lines 149 to 152): the child 101 created before
  the failure is stopped and is never resumed, waited for or reaped.
\<close>

lemma fork_failure_leaves_children:
  "usps 50 [500] None 0 [(101, 1), (-1, 1)] = Exited EXIT_FAILURE [Fork 101] \<and>
   uspsv4 50 [500] None 0 [(101, 1), (-1, 1)] = Exited EXIT_FAILURE [Fork 101] \<and>
   reaped [Fork 101] = []"
  by (simp add: usps_def uspsv4_def resolve_quantum_def ArrayQueue_def newQueue_def
      MAX_PROCESSES_def q_enqueue_def q_put_def Let_def int_of_long_smod int_of_long_id INT_MAX_def)

subsection \<open>At most one running\<close>

text \<open>
  C8. At most one running. Take any commands launched with distinct pids, and any state
  the scheduling loop reaches from the state the launch leaves. At every point of the
  events up to that state at most one child has been resumed (\<open>SIGCONT\<close>) and not yet
  suspended (\<open>SIGSTOP\<close>) or finalized. At the head of the loop the pids in the queue are
  distinct and are those of all the children created and not finalized: every READY
  control block is in the queue exactly once. No block in the queue is marked running
  or finished.
\<close>

theorem at_most_one_running:
  assumes "distinct (map fst cmds)" and "-1 \<notin> fst ` set cmds" and "0 \<notin> fst ` set cmds"
    and "2 * int (length cmds) \<le> INT_MAX"
    and "ArrayQueue True dqc MAX_PROCESSES = Some q0"
    and "launch cmds \<lparr>queue = q0, kernel = [], events = []\<rparr> = (e, s0)"
    and "(sched_step timer q)\<^sup>*\<^sup>* s0 s"
  shows "(\<forall>n. length (resumed (take n (events s))) \<le> 1) \<and>
         distinct (ready s) \<and> set (ready s) = live (events s) \<and>
         (\<forall>c \<in> set (ready_pcbs s). \<not> running c \<and> \<not> finished c)"
proof -
  have "sched_ok s0" using launch_ok [OF assms(1-6)] by blast
  then have "sched_ok s" by (rule sched_ok_reach [OF assms(7)])
  then show ?thesis unfolding sched_ok_def by (elim conjE) (intro conjI)
qed

text \<open>
  Two commands, the first of which runs for longer than the quantum of 500 ms, and the
  state after the first iteration of the loop.
\<close>

theorem at_most_one_running_witness:
  "distinct (map fst [(101::int, 700000::nat), (102, 1)]) \<and>
   -1 \<notin> fst ` set [(101::int, 700000::nat), (102, 1)] \<and> 0 \<notin> fst ` set [(101::int, 700000::nat), (102, 1)] \<and>
   2 * int (length [(101::int, 700000::nat), (102, 1)]) \<le> INT_MAX \<and>
   ArrayQueue True 50 MAX_PROCESSES =
     Some \<lparr>qd_count = 0, qd_size = 128, qd_in = 0, qd_out = 0,
           qd_buffer = replicate 128 (None :: ChildProcess option)\<rparr> \<and>
   launch [(101, 700000), (102, 1)]
     \<lparr>queue = \<lparr>qd_count = 0, qd_size = 128, qd_in = 0, qd_out = 0, qd_buffer = replicate 128 None\<rparr>,
      kernel = [], events = []\<rparr> =
     (None,
      \<lparr>queue = \<lparr>qd_count = 2, qd_size = 128, qd_in = 2, qd_out = 0,
                 qd_buffer = (replicate 128 None)[0 := Some (new_pcb 101), 1 := Some (new_pcb 102)]\<rparr>,
       kernel = [(101, 700000), (102, 1)], events = [Fork 101, Fork 102]\<rparr>) \<and>
   (sched_step (set_up_timer 500) 500)\<^sup>*\<^sup>*
     \<lparr>queue = \<lparr>qd_count = 2, qd_size = 128, qd_in = 2, qd_out = 0,
                qd_buffer = (replicate 128 None)[0 := Some (new_pcb 101), 1 := Some (new_pcb 102)]\<rparr>,
      kernel = [(101, 700000), (102, 1)], events = [Fork 101, Fork 102]\<rparr>
     \<lparr>queue = \<lparr>qd_count = 2, qd_size = 128, qd_in = 3, qd_out = 1,
                qd_buffer = (replicate 128 None)[0 := Some (new_pcb 101), 1 := Some (new_pcb 102),
                    2 := Some (new_pcb 101)]\<rparr>,
      kernel = [(101, 200000), (102, 1)],
      events = [Fork 101, Fork 102, SigCont 101, SetITimer (set_up_timer 500), WaitPid 101 0,
                SigStop 101]\<rparr> \<and>
   (\<forall>n. length (resumed (take n [Fork 101, Fork 102, SigCont 101, SetITimer (set_up_timer 500),
                                    WaitPid 101 0, SigStop 101])) \<le> 1) \<and>
   ready \<lparr>queue = \<lparr>qd_count = 2, qd_size = 128, qd_in = 3, qd_out = 1,
                qd_buffer = (replicate 128 None)[0 := Some (new_pcb 101), 1 := Some (new_pcb 102),
                    2 := Some (new_pcb 101)]\<rparr>,
      kernel = [(101, 200000), (102, 1)],
      events = [Fork 101, Fork 102, SigCont 101, SetITimer (set_up_timer 500), WaitPid 101 0,
                SigStop 101]\<rparr> = [102, 101] \<and>
   live [Fork 101, Fork 102, SigCont 101, SetITimer (set_up_timer 500), WaitPid 101 0, SigStop 101]
     = {101, 102}"
proof -
  let ?cmds = "[(101::int, 700000::nat), (102, 1)]"
  let ?q0 = "\<lparr>qd_count = 0, qd_size = 128, qd_in = 0, qd_out = 0,
      qd_buffer = replicate 128 (None :: ChildProcess option)\<rparr>"
  let ?s0 = "\<lparr>queue = \<lparr>qd_count = 2, qd_size = 128, qd_in = 2, qd_out = 0,
                qd_buffer = (replicate 128 None)[0 := Some (new_pcb 101), 1 := Some (new_pcb 102)]\<rparr>,
       kernel = [(101, 700000), (102, 1)], events = [Fork 101, Fork 102]\<rparr>"
  let ?s1 = "\<lparr>queue = \<lparr>qd_count = 2, qd_size = 128, qd_in = 3, qd_out = 1,
                qd_buffer = (replicate 128 None)[0 := Some (new_pcb 101), 1 := Some (new_pcb 102),
                    2 := Some (new_pcb 101)]\<rparr>,
      kernel = [(101, 200000), (102, 1)],
      events = [Fork 101, Fork 102, SigCont 101, SetITimer (set_up_timer 500), WaitPid 101 0,
                SigStop 101]\<rparr>"
  have h1: "distinct (map fst ?cmds)" by simp
  have h2: "-1 \<notin> fst ` set ?cmds" by simp
  have h3: "0 \<notin> fst ` set ?cmds" by simp
  have h4: "2 * int (length ?cmds) \<le> INT_MAX" by (simp add: INT_MAX_def)
  have h5: "ArrayQueue True 50 MAX_PROCESSES = Some ?q0"
    by (simp add: ArrayQueue_def newQueue_def MAX_PROCESSES_def)
  have h6: "launch ?cmds \<lparr>queue = ?q0, kernel = [], events = []\<rparr> = (None, ?s0)"
    by (simp add: q_enqueue_def q_put_def Let_def int_of_long_smod int_of_long_id INT_MAX_def)
  have it: "sched_iter (set_up_timer 500) 500 ?s0 = Inr ?s1"
    by (simp add: sched_iter_def q_dequeue_def q_enqueue_def q_put_def Let_def int_of_long_smod
        int_of_long_id INT_MAX_def rr_eval sdiv_nonneg)
  have h7: "(sched_step (set_up_timer 500) 500)\<^sup>*\<^sup>* ?s0 ?s1"
    using it by (simp add: sched_step_def q_isEmpty_def r_into_rtranclp)
  note t = at_most_one_running [OF h1 h2 h3 h4 h5 h6 h7]
  have r: "ready ?s1 = [102, 101]"
    by (simp add: ready_def ready_pcbs_def q_elems_def new_pcb_def upt_rec)
  have "set (ready ?s1) = live (events ?s1)" using t by blast
  then have l: "live [Fork 101, Fork 102, SigCont 101, SetITimer (set_up_timer 500), WaitPid 101 0,
      SigStop 101] = {101, 102}"
    unfolding r by auto
  have p: "\<forall>n. length (resumed (take n [Fork 101, Fork 102, SigCont 101,
      SetITimer (set_up_timer 500), WaitPid 101 0, SigStop 101])) \<le> 1"
    using t by simp
  show ?thesis
    by (intro conjI) (fact h1 h2 h3 h4 h5 h6 h7 p r l)+
qed

subsection \<open>Waiting for the end of the quantum\<close>





end
